theory Spec2Isabelle
  imports Complex_Main "HOL-Library.AList" "HOL-Library.Monad_Syntax"
begin

section \<open>Bone-name matching: the embedding\<close>

text \<open>
  The sources are \<^verbatim>\<open>src/retarget/BoneAutoMapper.ts\<close> (class \<^verbatim>\<open>BoneAutoMapper\<close>) and
  \<^verbatim>\<open>src/retarget/bone-automap/MixamoMapper.ts\<close> (class \<^verbatim>\<open>MixamoMapper\<close>).

  Conventions of the embedding.
  \<^item> A JavaScript string is a sequence of UTF-16 code units. A \<open>string\<close> here is a list of
    \<open>char\<close>, one \<open>char\<close> per code unit, so the model covers the names all of whose code
    units are below 256 (ASCII and Latin-1). \<open>length\<close> is \<^verbatim>\<open>.length\<close>.
  \<^item> \<^verbatim>\<open>Map<string, string>\<close> is an association list in insertion order;
    \<^verbatim>\<open>mappings.set(k, v)\<close> is \<open>AList.update k v\<close> (the value of an existing key is
    replaced in place, a new key is appended), and a lookup is \<open>map_of\<close>.
  \<^item> Scores are JavaScript numbers, that is IEEE 754 binary64 values. A finite one is
    the rational it denotes, and every operation rounds its exact result as the standard
    says (\<open>round_double\<close> below). \<open>None\<close> in a score stands for a value that is no
    finite number (NaN, an infinity). Lengths and matrix cells are natural numbers; as
    numbers they are exact, a string being shorter than \<open>2 ^ 53\<close>.
  \<^item> The output of \<^verbatim>\<open>console.log\<close> is not part of the model.
\<close>

subsection \<open>String primitives of the runtime\<close>

definition code_unit :: "char \<Rightarrow> nat" where
  "code_unit c = of_char c"

text \<open>\<^verbatim>\<open>String.prototype.toLowerCase\<close> on code units below 256: the letters A to Z and the
  Latin-1 capitals (U+00C0 to U+00DE without the multiplication sign U+00D7) move up by 32.\<close>

definition to_lower_char :: "char \<Rightarrow> char" where
  "to_lower_char c =
     (let n = code_unit c in
      if (65 \<le> n \<and> n \<le> 90) \<or> (192 \<le> n \<and> n \<le> 214) \<or> (216 \<le> n \<and> n \<le> 222)
      then char_of (n + 32) else c)"

definition toLowerCase :: "string \<Rightarrow> string" where
  "toLowerCase s = map to_lower_char s"

text \<open>\<^verbatim>\<open>String.prototype.includes\<close>: the search string occurs at some position.\<close>

fun starts_with :: "string \<Rightarrow> string \<Rightarrow> bool" where
  "starts_with s [] = True"
| "starts_with [] (p # ps) = False"
| "starts_with (c # cs) (p # ps) = (c = p \<and> starts_with cs ps)"

fun includes_str :: "string \<Rightarrow> string \<Rightarrow> bool" where
  "includes_str [] search = (search = [])"
| "includes_str (c # cs) search = (starts_with (c # cs) search \<or> includes_str cs search)"

text \<open>The character classes of the regular expressions: \<^verbatim>\<open>\s\<close> (white space, below 256:
  tab, line feed, vertical tab, form feed, carriage return, space, no-break space) and
  \<^verbatim>\<open>\w\<close> (ASCII letters, digits, underscore), from which \<^verbatim>\<open>\b\<close> is built.\<close>

definition is_space_char :: "char \<Rightarrow> bool" where
  "is_space_char c = (let n = code_unit c in (9 \<le> n \<and> n \<le> 13) \<or> n = 32 \<or> n = 160)"

definition is_word_char :: "char \<Rightarrow> bool" where
  "is_word_char c =
     (let n = code_unit c in
      (48 \<le> n \<and> n \<le> 57) \<or> (65 \<le> n \<and> n \<le> 90) \<or> n = 95 \<or> (97 \<le> n \<and> n \<le> 122))"

subsection \<open>The replacements of \<^verbatim>\<open>normalize_bone_name\<close>\<close>

text \<open>\<^verbatim>\<open>replace(/[-.\s]/g, '_')\<close>: every hyphen, period and white-space character becomes
  an underscore.\<close>

definition is_separator :: "char \<Rightarrow> bool" where
  "is_separator c = (c = CHR ''-'' \<or> c = CHR ''.'' \<or> is_space_char c)"

definition replace_separators :: "string \<Rightarrow> string" where
  "replace_separators s = map (\<lambda>c. if is_separator c then CHR ''_'' else c) s"

text \<open>\<^verbatim>\<open>replace(/^(mixamorig|mixamorig_|rig_|bone_|jnt_|joint_)/i, '')\<close>. The alternatives
  are tried at position 0 in the order written, and since nothing follows the group the
  first one that matches is the match. Under the flag \<^verbatim>\<open>i\<close> a character matches a pattern
  letter when the two agree up to letter case.\<close>

definition rig_prefixes :: "string list" where
  "rig_prefixes = [''mixamorig'', ''mixamorig_'', ''rig_'', ''bone_'', ''jnt_'', ''joint_'']"

definition matches_ignore_case :: "string \<Rightarrow> string \<Rightarrow> bool" where
  "matches_ignore_case s p = starts_with (map to_lower_char s) (map to_lower_char p)"

definition matched_prefix :: "string \<Rightarrow> string option" where
  "matched_prefix s = find (matches_ignore_case s) rig_prefixes"

definition strip_prefix :: "string \<Rightarrow> string" where
  "strip_prefix s = (case matched_prefix s of None \<Rightarrow> s | Some p \<Rightarrow> drop (length p) s)"

text \<open>\<^verbatim>\<open>replace(/\bW\b/g, R)\<close> for a literal word \<open>W\<close>: a scan from left to right. The flag
  \<open>prev\<close> says whether the character before the current position (in the input) is a word
  character; \<^verbatim>\<open>\b\<close> holds where exactly one of the two neighbours is one. After a match
  the scan goes on behind the matched text. (An empty remainder cannot match a non-empty
  word, so the scan ends there.)\<close>

definition word_boundary :: "bool \<Rightarrow> bool \<Rightarrow> bool" where
  "word_boundary left_is_word right_is_word = (left_is_word \<noteq> right_is_word)"

definition next_is_word :: "string \<Rightarrow> bool" where
  "next_is_word s = (case s of [] \<Rightarrow> False | c # _ \<Rightarrow> is_word_char c)"

definition match_here :: "string \<Rightarrow> bool \<Rightarrow> string \<Rightarrow> bool" where
  "match_here w prev s =
     (w \<noteq> [] \<and> word_boundary prev (next_is_word s) \<and> starts_with s w
        \<and> word_boundary (is_word_char (last w)) (next_is_word (drop (length w) s)))"

fun replace_whole_word :: "string \<Rightarrow> string \<Rightarrow> bool \<Rightarrow> string \<Rightarrow> string" where
  "replace_whole_word w r prev [] = []"
| "replace_whole_word w r prev (c # cs) =
     (if match_here w prev (c # cs)
      then r @ replace_whole_word w r (is_word_char (last w)) (drop (length w - 1) cs)
      else c # replace_whole_word w r (is_word_char c) cs)"

text \<open>\<^verbatim>\<open>replace(/^P/g, R)\<close> and \<^verbatim>\<open>replace(/P$/g, R)\<close> for a literal \<open>P\<close>: the anchors allow
  one match only, at the start and at the end of the string.\<close>

definition replace_leading :: "string \<Rightarrow> string \<Rightarrow> string \<Rightarrow> string" where
  "replace_leading p r s = (if starts_with s p then r @ drop (length p) s else s)"

definition ends_with :: "string \<Rightarrow> string \<Rightarrow> bool" where
  "ends_with s p = (length p \<le> length s \<and> drop (length s - length p) s = p)"

definition replace_trailing :: "string \<Rightarrow> string \<Rightarrow> string \<Rightarrow> string" where
  "replace_trailing p r s = (if ends_with s p then take (length s - length p) s @ r else s)"

definition normalize_bone_name :: "string \<Rightarrow> string" where
  "normalize_bone_name bone_name =
     (let normalized = toLowerCase bone_name;
          normalized = replace_separators normalized;
          normalized = strip_prefix normalized;
          normalized = replace_whole_word ''left'' ''l'' False normalized;
          normalized = replace_whole_word ''right'' ''r'' False normalized;
          normalized = replace_leading ''l_'' ''left_'' normalized;
          normalized = replace_leading ''r_'' ''right_'' normalized;
          normalized = replace_trailing ''_l'' ''_left'' normalized;
          normalized = replace_trailing ''_r'' ''_right'' normalized
      in normalized)"

subsection \<open>Arrays of the runtime and counting loops\<close>

text \<open>\<^verbatim>\<open>a[i]\<close> read: \<open>None\<close> is \<^verbatim>\<open>undefined\<close>, the value of a read outside the array.
  \<^verbatim>\<open>a[i] = v\<close>: inside the array the element is replaced, at index \<^verbatim>\<open>a.length\<close> the array
  grows by one; a write further out would leave holes, which this model does not
  represent: it answers \<open>None\<close>.\<close>

definition array_get :: "'a list \<Rightarrow> nat \<Rightarrow> 'a option" where
  "array_get a i = (if i < length a then Some (a ! i) else None)"

definition array_set :: "'a list \<Rightarrow> nat \<Rightarrow> 'a \<Rightarrow> 'a list option" where
  "array_set a i v =
     (if i < length a then Some (a[i := v])
      else if i = length a then Some (a @ [v])
      else None)"

text \<open>\<^verbatim>\<open>for (let i = lo; i <= hi; i++) body\<close>, the body a state transformer that may fail.\<close>

function for_loop :: "nat \<Rightarrow> nat \<Rightarrow> (nat \<Rightarrow> 's \<Rightarrow> 's option) \<Rightarrow> 's \<Rightarrow> 's option" where
  "for_loop i hi body s =
     (if i \<le> hi
      then (case body i s of None \<Rightarrow> None | Some s' \<Rightarrow> for_loop (Suc i) hi body s')
      else Some s)"
  by pat_completeness auto
termination
  by (relation "measure (\<lambda>(i, hi, body, s). Suc hi - i)") auto

declare for_loop.simps [simp del]

subsection \<open>\<^verbatim>\<open>levenshtein_distance\<close>\<close>

text \<open>The matrix is an array of rows. A result \<open>None\<close> says that the run read an
  \<^verbatim>\<open>undefined\<close> cell or wrote beyond the end of a row, where the source would go on with
  NaN or throw.\<close>

type_synonym matrix = "nat list list"

definition cell :: "matrix \<Rightarrow> nat \<Rightarrow> nat \<Rightarrow> nat option" where
  "cell matrix i j = do { row \<leftarrow> array_get matrix i; array_get row j }"

definition set_cell :: "matrix \<Rightarrow> nat \<Rightarrow> nat \<Rightarrow> nat \<Rightarrow> matrix option" where
  "set_cell matrix i j v =
     do { row \<leftarrow> array_get matrix i; row' \<leftarrow> array_set row j v; array_set matrix i row' }"

definition fill_cell :: "string \<Rightarrow> string \<Rightarrow> nat \<Rightarrow> nat \<Rightarrow> matrix \<Rightarrow> matrix option" where
  "fill_cell str1 str2 i j matrix =
     do {
       let cost = (if array_get str1 (i - 1) = array_get str2 (j - 1) then 0 else 1);
       deletion \<leftarrow> cell matrix (i - 1) j;
       insertion \<leftarrow> cell matrix i (j - 1);
       substitution \<leftarrow> cell matrix (i - 1) (j - 1);
       set_cell matrix i j (min (deletion + 1) (min (insertion + 1) (substitution + cost)))
     }"

definition levenshtein_distance :: "string \<Rightarrow> string \<Rightarrow> nat option" where
  "levenshtein_distance str1 str2 =
     (let len1 = length str1; len2 = length str2 in
      do {
        matrix \<leftarrow> for_loop 0 len1 (\<lambda>i matrix. array_set matrix i [i]) [];
        matrix \<leftarrow> for_loop 0 len2 (\<lambda>j matrix. set_cell matrix 0 j j) matrix;
        matrix \<leftarrow> for_loop 1 len1
                   (\<lambda>i matrix. for_loop 1 len2 (\<lambda>j matrix. fill_cell str1 str2 i j matrix) matrix)
                   matrix;
        cell matrix len1 len2
      })"

subsection \<open>Numbers of the runtime\<close>

text \<open>Rounding to binary64: to the nearest value with 53 significant binary digits, a tie
  to the one whose last digit is even. \<open>exponent_of x\<close> is the exponent \<open>e\<close> with
  \<open>2 ^ e \<le> x < 2 ^ (e + 1)\<close> for a positive \<open>x\<close>, found from the lengths of numerator and
  denominator. Every arithmetic operation of the source and every decimal literal
  (\<^verbatim>\<open>0.8\<close>, \<^verbatim>\<open>0.2\<close>, \<^verbatim>\<open>0.6\<close>) is the rounded exact value. The bounds of the exponent are
  left out: the values computed here from strings shorter than \<open>2 ^ 53\<close> lie between
  \<open>2 ^ -56\<close> and 1, or are 0.\<close>

function bit_length :: "int \<Rightarrow> int" where
  "bit_length n = (if n \<le> 0 then 0 else 1 + bit_length (n div 2))"
  by pat_completeness auto
termination
  by (relation "measure nat") auto

declare bit_length.simps [simp del]

definition pow2 :: "int \<Rightarrow> rat" where
  "pow2 e = (if 0 \<le> e then of_int (2 ^ nat e) else 1 / of_int (2 ^ nat (- e)))"

definition exponent_of :: "rat \<Rightarrow> int" where
  "exponent_of x =
     (let (a, b) = quotient_of x;
          e = bit_length a - bit_length b
      in if pow2 e \<le> x then e else e - 1)"

definition round_half_even :: "rat \<Rightarrow> int" where
  "round_half_even q =
     (let n = \<lfloor>q\<rfloor>; r = q - of_int n
      in if r < 1 / 2 then n else if 1 / 2 < r then n + 1 else if even n then n else n + 1)"

definition round_double :: "rat \<Rightarrow> rat" where
  "round_double x =
     (if x = 0 then 0
      else let a = \<bar>x\<bar>; ulp = pow2 (exponent_of a - 52)
           in sgn x * of_int (round_half_even (a / ulp)) * ulp)"

subsection \<open>\<^verbatim>\<open>calculate_similarity\<close>\<close>

text \<open>\<^verbatim>\<open>a / b\<close> for two lengths. A division by zero would give an infinity or NaN:
  \<open>None\<close>.\<close>

definition divide_number :: "nat \<Rightarrow> nat \<Rightarrow> rat option" where
  "divide_number a b = (if b = 0 then None else Some (round_double (of_nat a / of_nat b)))"

definition calculate_similarity :: "string \<Rightarrow> string \<Rightarrow> rat option" where
  "calculate_similarity name1 name2 =
     (if name1 = name2 then Some 1
      else if includes_str name1 name2 \<or> includes_str name2 name1 then
        (let longer = max (length name1) (length name2);
             shorter = min (length name1) (length name2)
         in do {
              ratio \<leftarrow> divide_number shorter longer;
              Some (round_double
                (round_double (8 / 10) + round_double (ratio * round_double (2 / 10))))
            })
      else
        do {
          distance \<leftarrow> levenshtein_distance name1 name2;
          let max_length = max (length name1) (length name2);
          ratio \<leftarrow> divide_number distance max_length;
          Some (round_double (1 - ratio))
        })"

subsection \<open>\<^verbatim>\<open>find_best_match\<close> and \<^verbatim>\<open>auto_map_bones\<close>\<close>

text \<open>The loop of \<^verbatim>\<open>find_best_match\<close> with its two variables. The test is
  \<^verbatim>\<open>score > best_score && score >= 0.6\<close>, the literal being the number next to 0.6; a
  score that is no number fails it.\<close>

fun best_match_loop :: "string \<Rightarrow> string option \<Rightarrow> rat \<Rightarrow> string list \<Rightarrow> string option" where
  "best_match_loop normalized_target best_match best_score [] = best_match"
| "best_match_loop normalized_target best_match best_score (source_bone # rest) =
     (let normalized_source = normalize_bone_name source_bone
      in case calculate_similarity normalized_target normalized_source of
           None \<Rightarrow> best_match_loop normalized_target best_match best_score rest
         | Some score \<Rightarrow>
             if score > best_score \<and> score \<ge> round_double (6 / 10)
             then best_match_loop normalized_target (Some source_bone) score rest
             else best_match_loop normalized_target best_match best_score rest)"

definition find_best_match :: "string \<Rightarrow> string list \<Rightarrow> string option" where
  "find_best_match target_bone source_bones =
     (let normalized_target = normalize_bone_name target_bone
      in best_match_loop normalized_target None 0 source_bones)"

type_synonym bone_mapping = "(string \<times> string) list"

fun auto_map_loop :: "string list \<Rightarrow> bone_mapping \<Rightarrow> string list \<Rightarrow> bone_mapping" where
  "auto_map_loop source_bone_names mappings [] = mappings"
| "auto_map_loop source_bone_names mappings (target_bone # rest) =
     (case find_best_match target_bone source_bone_names of
        None \<Rightarrow> auto_map_loop source_bone_names mappings rest
      | Some best_match \<Rightarrow>
          auto_map_loop source_bone_names (AList.update target_bone best_match mappings) rest)"

definition auto_map_bones :: "string list \<Rightarrow> string list \<Rightarrow> bone_mapping" where
  "auto_map_bones source_bone_names target_bone_names =
     auto_map_loop source_bone_names [] target_bone_names"

subsection \<open>\<^verbatim>\<open>MixamoMapper\<close>\<close>

text \<open>The object literal \<^verbatim>\<open>BONE_MAP\<close>, its own properties in the order written.\<close>

definition BONE_MAP :: "(string \<times> string) list" where
  "BONE_MAP =
     [
      (''pelvis'', ''mixamorigHips''), (''spine_01'', ''mixamorigSpine''),
      (''spine_02'', ''mixamorigSpine1''), (''spine_03'', ''mixamorigSpine2''),
      (''neck_01'', ''mixamorigNeck''), (''head'', ''mixamorigHead''),
      (''head_leaf'', ''mixamorigHeadTop_End''), (''clavicle_l'', ''mixamorigLeftShoulder''),
      (''upperarm_l'', ''mixamorigLeftArm''), (''lowerarm_l'', ''mixamorigLeftForeArm''),
      (''hand_l'', ''mixamorigLeftHand''), (''clavicle_r'', ''mixamorigRightShoulder''),
      (''upperarm_r'', ''mixamorigRightArm''), (''lowerarm_r'', ''mixamorigRightForeArm''),
      (''hand_r'', ''mixamorigRightHand''), (''thigh_l'', ''mixamorigLeftUpLeg''),
      (''calf_l'', ''mixamorigLeftLeg''), (''foot_l'', ''mixamorigLeftFoot''),
      (''ball_l'', ''mixamorigLeftToeBase''), (''ball_leaf_l'', ''mixamorigLeftToe_End''),
      (''thigh_r'', ''mixamorigRightUpLeg''), (''calf_r'', ''mixamorigRightLeg''),
      (''foot_r'', ''mixamorigRightFoot''), (''ball_r'', ''mixamorigRightToeBase''),
      (''ball_leaf_r'', ''mixamorigRightToe_End''), (''thumb_01_l'', ''mixamorigLeftHandThumb1''),
      (''thumb_02_l'', ''mixamorigLeftHandThumb2''), (''thumb_03_l'', ''mixamorigLeftHandThumb3''),
      (''thumb_04_leaf_l'', ''mixamorigLeftHandThumb4''), (''index_01_l'', ''mixamorigLeftHandIndex1''),
      (''index_02_l'', ''mixamorigLeftHandIndex2''), (''index_03_l'', ''mixamorigLeftHandIndex3''),
      (''index_04_leaf_l'', ''mixamorigLeftHandIndex4''), (''middle_01_l'', ''mixamorigLeftHandMiddle1''),
      (''middle_02_l'', ''mixamorigLeftHandMiddle2''), (''middle_03_l'', ''mixamorigLeftHandMiddle3''),
      (''middle_04_leaf_l'', ''mixamorigLeftHandMiddle4''), (''ring_01_l'', ''mixamorigLeftHandRing1''),
      (''ring_02_l'', ''mixamorigLeftHandRing2''), (''ring_03_l'', ''mixamorigLeftHandRing3''),
      (''ring_04_leaf_l'', ''mixamorigLeftHandRing4''), (''pinky_01_l'', ''mixamorigLeftHandPinky1''),
      (''pinky_02_l'', ''mixamorigLeftHandPinky2''), (''pinky_03_l'', ''mixamorigLeftHandPinky3''),
      (''pinky_04_leaf_l'', ''mixamorigLeftHandPinky4''), (''thumb_01_r'', ''mixamorigRightHandThumb1''),
      (''thumb_02_r'', ''mixamorigRightHandThumb2''), (''thumb_03_r'', ''mixamorigRightHandThumb3''),
      (''thumb_04_leaf_r'', ''mixamorigRightHandThumb4''), (''index_01_r'', ''mixamorigRightHandIndex1''),
      (''index_02_r'', ''mixamorigRightHandIndex2''), (''index_03_r'', ''mixamorigRightHandIndex3''),
      (''index_04_leaf_r'', ''mixamorigRightHandIndex4''), (''middle_01_r'', ''mixamorigRightHandMiddle1''),
      (''middle_02_r'', ''mixamorigRightHandMiddle2''), (''middle_03_r'', ''mixamorigRightHandMiddle3''),
      (''middle_04_leaf_r'', ''mixamorigRightHandMiddle4''), (''ring_01_r'', ''mixamorigRightHandRing1''),
      (''ring_02_r'', ''mixamorigRightHandRing2''), (''ring_03_r'', ''mixamorigRightHandRing3''),
      (''ring_04_leaf_r'', ''mixamorigRightHandRing4''), (''pinky_01_r'', ''mixamorigRightHandPinky1''),
      (''pinky_02_r'', ''mixamorigRightHandPinky2''), (''pinky_03_r'', ''mixamorigRightHandPinky3''),
      (''pinky_04_leaf_r'', ''mixamorigRightHandPinky4'')
     ]"

text \<open>\<^verbatim>\<open>this.BONE_MAP[key]\<close>. The table is a plain object, so a key that is not its own
  is looked up in \<^verbatim>\<open>Object.prototype\<close>, whose properties are functions and objects and no
  strings; every other key gives \<^verbatim>\<open>undefined\<close>.\<close>

datatype property_value = Undefined | Str string | Inherited

definition object_prototype_keys :: "string list" where
  "object_prototype_keys =
     [''constructor'', ''hasOwnProperty'', ''isPrototypeOf'', ''propertyIsEnumerable'',
      ''toLocaleString'', ''toString'', ''valueOf'', ''__proto__'',
      ''__defineGetter__'', ''__defineSetter__'', ''__lookupGetter__'', ''__lookupSetter__'']"

definition BONE_MAP_get :: "string \<Rightarrow> property_value" where
  "BONE_MAP_get key =
     (case map_of BONE_MAP key of
        Some v \<Rightarrow> Str v
      | None \<Rightarrow> if key \<in> set object_prototype_keys then Inherited else Undefined)"

text \<open>Modelled from the spec: the type \<^verbatim>\<open>BoneMetadata\<close>, which \<^verbatim>\<open>MixamoMapper.ts\<close> imports and
  no source file declares; the spec gives it as a value with a \<^verbatim>\<open>name\<close>. Further fields,
  if any, are the record's extension.\<close>

record BoneMetadata =
  name :: string

definition is_target_valid_skeleton :: "string list \<Rightarrow> bool" where
  "is_target_valid_skeleton bone_names =
     list_ex (\<lambda>bone_name. includes_str (toLowerCase bone_name) ''mixamorig'') bone_names"

text \<open>\<^verbatim>\<open>tb.name === expected_mixamo_name\<close> compares a string with a property value.\<close>

definition strict_equal :: "string \<Rightarrow> property_value \<Rightarrow> bool" where
  "strict_equal s v = (case v of Str t \<Rightarrow> s = t | _ \<Rightarrow> False)"

fun mixamo_loop ::
  "'a BoneMetadata_scheme list \<Rightarrow> bone_mapping \<Rightarrow> 'b BoneMetadata_scheme list \<Rightarrow> bone_mapping" where
  "mixamo_loop target_bones mappings [] = mappings"
| "mixamo_loop target_bones mappings (source_bone # rest) =
     (let expected_mixamo_name = BONE_MAP_get (name source_bone)
      in if expected_mixamo_name \<noteq> Undefined
         then (case find (\<lambda>tb. strict_equal (name tb) expected_mixamo_name) target_bones of
                 Some target_bone \<Rightarrow>
                   mixamo_loop target_bones
                     (AList.update (name target_bone) (name source_bone) mappings) rest
               | None \<Rightarrow> mixamo_loop target_bones mappings rest)
         else mixamo_loop target_bones mappings rest)"

definition map_mixamo_bones ::
  "'b BoneMetadata_scheme list \<Rightarrow> 'a BoneMetadata_scheme list \<Rightarrow> bone_mapping" where
  "map_mixamo_bones source_bones target_bones = mixamo_loop target_bones [] source_bones"

section \<open>Notions of the specification and of the proofs\<close>

text \<open>From the words of the specification: a name contains the signature
  case-insensitively when some contiguous part of it equals the signature up to letter
  case.\<close>

definition contains_ignore_case :: "string \<Rightarrow> string \<Rightarrow> bool" where
  "contains_ignore_case s signature =
     (\<exists>before part after. s = before @ part @ after \<and> toLowerCase part = toLowerCase signature)"

text \<open>From the words of the specification: the edit distance of two strings is the least
  number of single-character insertions, deletions and substitutions that transform the
  one into the other. \<open>edit_step\<close> is one such edit at any position (a substitution may
  put the same character again, which never shortens a sequence), \<open>edits n\<close> a sequence
  of \<open>n\<close> of them.\<close>

inductive edit_step :: "string \<Rightarrow> string \<Rightarrow> bool" where
  insertion: "edit_step (a @ b) (a @ [c] @ b)"
| deletion: "edit_step (a @ [c] @ b) (a @ b)"
| substitution: "edit_step (a @ [c] @ b) (a @ [d] @ b)"

inductive edits :: "nat \<Rightarrow> string \<Rightarrow> string \<Rightarrow> bool" where
  no_edit: "edits 0 s s"
| one_more: "edit_step s t \<Longrightarrow> edits n t u \<Longrightarrow> edits (Suc n) s u"

text \<open>The recurrence of the specification: \<open>lev_cell a b i j\<close> is the cell \<open>i\<close>, \<open>j\<close> of the
  table for \<open>a\<close> and \<open>b\<close>. \<open>prefix_distance\<close> is the same recurrence on lists, from the
  front.\<close>

fun lev_cell :: "string \<Rightarrow> string \<Rightarrow> nat \<Rightarrow> nat \<Rightarrow> nat" where
  "lev_cell a b 0 j = j"
| "lev_cell a b (Suc i) 0 = Suc i"
| "lev_cell a b (Suc i) (Suc j) =
     min (lev_cell a b i (Suc j) + 1)
       (min (lev_cell a b (Suc i) j + 1)
          (lev_cell a b i j + (if a ! i = b ! j then 0 else 1)))"

fun prefix_distance :: "string \<Rightarrow> string \<Rightarrow> nat" where
  "prefix_distance [] ys = length ys"
| "prefix_distance (x # xs) [] = Suc (length xs)"
| "prefix_distance (x # xs) (y # ys) =
     min (prefix_distance xs (y # ys) + 1)
       (min (prefix_distance (x # xs) ys + 1)
          (prefix_distance xs ys + (if x = y then 0 else 1)))"

text \<open>The matrix of \<^verbatim>\<open>levenshtein_distance\<close> during the run: rows below \<open>i\<close> are filled, row
  \<open>i\<close> is filled up to column \<open>j\<close>, and the rows behind hold their first cell only.\<close>

definition full_row :: "string \<Rightarrow> string \<Rightarrow> nat \<Rightarrow> nat list" where
  "full_row a b k = map (lev_cell a b k) [0..<Suc (length b)]"

definition rows_done :: "string \<Rightarrow> string \<Rightarrow> nat \<Rightarrow> matrix" where
  "rows_done a b i = map (\<lambda>k. if k < i then full_row a b k else [k]) [0..<Suc (length a)]"

definition row_partial :: "string \<Rightarrow> string \<Rightarrow> nat \<Rightarrow> nat \<Rightarrow> matrix" where
  "row_partial a b i j =
     map (\<lambda>k. if k < i then full_row a b k
              else if k = i then map (lev_cell a b i) [0..<j]
              else [k]) [0..<Suc (length a)]"

text \<open>For the proofs about \<^verbatim>\<open>normalize_bone_name\<close>: \<open>has_match w prev s\<close> says that the scan
  of \<open>replace_whole_word\<close> finds a match of \<open>w\<close> somewhere in \<open>s\<close>; a word is a non-empty
  string of word characters.\<close>

fun has_match :: "string \<Rightarrow> bool \<Rightarrow> string \<Rightarrow> bool" where
  "has_match w prev [] = False"
| "has_match w prev (c # cs) = (match_here w prev (c # cs) \<or> has_match w (is_word_char c) cs)"

definition is_word :: "string \<Rightarrow> bool" where
  "is_word w = (w \<noteq> [] \<and> list_all is_word_char w)"

text \<open>A character is settled when lower-casing and the separator step leave it as it is;
  it is untouched when it occurs in neither \<open>left\<close> nor \<open>right\<close>, so that no step behind the
  prefix step adds or removes it.\<close>

definition settled :: "char \<Rightarrow> bool" where
  "settled c = (to_lower_char c = c \<and> \<not> is_separator c)"

definition untouched :: "char \<Rightarrow> bool" where
  "untouched c = (c \<notin> set ''left'' \<and> c \<notin> set ''right'')"

text \<open>The table expects the target name \<open>t\<close> for the source name \<open>s\<close>, and a target bone
  has that name.\<close>

definition expected_target :: "'a BoneMetadata_scheme list \<Rightarrow> string \<Rightarrow> string \<Rightarrow> bool" where
  "expected_target target_bones s t \<longleftrightarrow>
     map_of BONE_MAP s = Some t \<and> t \<in> name ` set target_bones"

section \<open>Properties\<close>

subsection \<open>Facts about the string primitives\<close>

lemma includes_str_empty: "includes_str s []"
  by (cases s) simp_all

lemma starts_with_append: "starts_with s (p @ q) \<Longrightarrow> starts_with s p"
  by (induction s p rule: starts_with.induct) simp_all

lemma starts_with_drop: "starts_with s (p @ q) \<Longrightarrow> starts_with (drop (length p) s) q"
  by (induction s p rule: starts_with.induct) simp_all

lemma starts_with_map: "starts_with s p \<Longrightarrow> starts_with (map f s) (map f p)"
  by (induction s p rule: starts_with.induct) simp_all

lemma starts_with_iff: "starts_with s p \<longleftrightarrow> take (length p) s = p"
  by (induction s p rule: starts_with.induct) auto

lemma starts_with_append_iff: "starts_with s p \<longleftrightarrow> (\<exists>rest. s = p @ rest)"
  by (induction s p rule: starts_with.induct) auto

lemma includes_str_iff: "includes_str s t \<longleftrightarrow> (\<exists>before after. s = before @ t @ after)"
proof (induction s)
  case Nil
  then show ?case by auto
next
  case (Cons c cs)
  show ?case
  proof
    assume "includes_str (c # cs) t"
    then consider "starts_with (c # cs) t" | "includes_str cs t"
      by auto
    then show "\<exists>before after. c # cs = before @ t @ after"
    proof cases
      case 1
      then obtain rest where "c # cs = t @ rest"
        using starts_with_append_iff by blast
      then have "c # cs = [] @ t @ rest" by simp
      then show ?thesis by blast
    next
      case 2
      then obtain before after where "cs = before @ t @ after"
        using Cons.IH by blast
      then have "c # cs = (c # before) @ t @ after" by simp
      then show ?thesis by blast
    qed
  next
    assume "\<exists>before after. c # cs = before @ t @ after"
    then obtain before after where eq: "c # cs = before @ t @ after"
      by blast
    show "includes_str (c # cs) t"
    proof (cases before)
      case Nil
      with eq have "starts_with (c # cs) t"
        using starts_with_append_iff by auto
      then show ?thesis by simp
    next
      case (Cons b bs)
      with eq have "cs = bs @ t @ after" by simp
      then have "includes_str cs t"
        using Cons.IH by blast
      then show ?thesis by simp
    qed
  qed
qed

lemma map_eq_append3:
  assumes "map f xs = a @ m @ b"
  shows "\<exists>a' u b'. xs = a' @ u @ b' \<and> map f u = m"
proof -
  let ?u = "take (length m) (drop (length a) xs)"
  have "map f ?u = take (length m) (drop (length a) (map f xs))"
    by (simp add: take_map drop_map)
  also have "\<dots> = m"
    by (simp add: assms)
  finally have "map f ?u = m" .
  moreover have "xs = take (length a) xs @ ?u @ drop (length m) (drop (length a) xs)"
    unfolding append_take_drop_id ..
  ultimately show ?thesis by blast
qed

subsection \<open>The prefix alternation\<close>

lemma second_alternative_never_matches: "matched_prefix s \<noteq> Some ''mixamorig_''"
proof -
  have "matches_ignore_case s ''mixamorig_'' \<Longrightarrow> matches_ignore_case s ''mixamorig''"
    unfolding matches_ignore_case_def
    using starts_with_append [of "map to_lower_char s" "map to_lower_char ''mixamorig''"
        "map to_lower_char ''_''"]
    by simp
  then show ?thesis
    by (auto simp: matched_prefix_def rig_prefixes_def)
qed

lemma replace_separators_signature: "replace_separators ''mixamorig_'' = ''mixamorig_''"
  by (simp add: replace_separators_def is_separator_def is_space_char_def code_unit_def)

lemma underscore_kept:
  assumes "starts_with t ''mixamorig_''"
  shows "matched_prefix (replace_separators t) = Some ''mixamorig''"
    and "strip_prefix (replace_separators t) = drop 9 (replace_separators t)"
    and "starts_with (strip_prefix (replace_separators t)) ''_''"
proof -
  let ?r = "replace_separators t"
  have r: "starts_with ?r (''mixamorig'' @ ''_'')"
    using starts_with_map [OF assms, of "\<lambda>c. if is_separator c then CHR ''_'' else c"]
      replace_separators_signature
    by (simp add: replace_separators_def)
  then have "starts_with ?r ''mixamorig''"
    by (rule starts_with_append)
  then have "matches_ignore_case ?r ''mixamorig''"
    unfolding matches_ignore_case_def by (rule starts_with_map)
  then show m: "matched_prefix ?r = Some ''mixamorig''"
    by (simp add: matched_prefix_def rig_prefixes_def)
  then show "strip_prefix ?r = drop 9 ?r"
    by (simp add: strip_prefix_def eval_nat_numeral)
  show "starts_with (strip_prefix ?r) ''_''"
    using starts_with_drop [OF r] m by (simp add: strip_prefix_def)
qed

text \<open>
  C10. A name that after lower-casing begins with \<open>mixamorig_\<close> loses the nine characters
  \<open>mixamorig\<close> only: the first alternative is the one that matches, the remainder is the
  input without its first nine characters and begins with the underscore. So
  \<open>mixamorig_Hips\<close> is normalized to \<open>_hips\<close>, and for no input at all is the second
  alternative \<open>mixamorig_\<close> the one that matches.
\<close>

theorem underscore_after_mixamorig_stays:
  "(starts_with (toLowerCase bone_name) ''mixamorig_'' \<longrightarrow>
      matched_prefix (replace_separators (toLowerCase bone_name)) = Some ''mixamorig''
      \<and> strip_prefix (replace_separators (toLowerCase bone_name))
          = drop 9 (replace_separators (toLowerCase bone_name))
      \<and> starts_with (strip_prefix (replace_separators (toLowerCase bone_name))) ''_'')
   \<and> normalize_bone_name ''mixamorig_Hips'' = ''_hips''
   \<and> matched_prefix s \<noteq> Some ''mixamorig_''"
proof -
  have "normalize_bone_name ''mixamorig_Hips'' = ''_hips''"
    by code_simp
  then show ?thesis
    using underscore_kept [of "toLowerCase bone_name"] second_alternative_never_matches [of s]
    by blast
qed

theorem underscore_after_mixamorig_stays_witness:
  "starts_with (toLowerCase ''mixamorig_Hips'') ''mixamorig_''
   \<and> strip_prefix (replace_separators (toLowerCase ''mixamorig_Hips'')) = ''_hips''"
proof -
  have h: "starts_with (toLowerCase ''mixamorig_Hips'') ''mixamorig_''"
    by code_simp
  have d: "drop 9 (replace_separators (toLowerCase ''mixamorig_Hips'')) = ''_hips''"
    by code_simp
  show ?thesis
    using h d underscore_after_mixamorig_stays [of "''mixamorig_Hips''" "[]"] by simp
qed

subsection \<open>The name \<open>mixamorigLeftArm\<close>\<close>

text \<open>
  C5, as the specification states it: normalizing \<open>mixamorigLeftArm\<close> removes no leading
  rig prefix. It fails: the prefix step changes the lower-cased name.
\<close>

theorem mixamorig_left_arm_prefix_is_removed:
  "\<not> (strip_prefix (replace_separators (toLowerCase ''mixamorigLeftArm''))
        = replace_separators (toLowerCase ''mixamorigLeftArm''))"
  by code_simp

text \<open>
  C5, amended: \<open>mixamorigLeftArm\<close> is normalized to \<open>leftarm\<close> by the five steps in
  their order. Lower-casing gives \<open>mixamorigleftarm\<close>, which has no separator; the prefix
  step matches its first alternative \<open>mixamorig\<close> and removes it; in \<open>leftarm\<close> the letters
  \<open>left\<close> are no whole word, so they stay, and no side marker is expanded.
\<close>

theorem normalize_mixamorig_left_arm:
  "toLowerCase ''mixamorigLeftArm'' = ''mixamorigleftarm''
   \<and> replace_separators ''mixamorigleftarm'' = ''mixamorigleftarm''
   \<and> matched_prefix ''mixamorigleftarm'' = Some ''mixamorig''
   \<and> strip_prefix ''mixamorigleftarm'' = ''leftarm''
   \<and> replace_whole_word ''left'' ''l'' False ''leftarm'' = ''leftarm''
   \<and> normalize_bone_name ''mixamorigLeftArm'' = ''leftarm''"
  by code_simp

subsection \<open>The rounding\<close>

text \<open>\<open>exponent_of\<close> finds the binary exponent, and \<open>round_double\<close> gives a value with a
  significand of 53 binary digits that is at most half a unit in the last place away
  from its argument, with an even significand where the argument is half-way.\<close>

lemma pow2_powi: "pow2 e = 2 powi e"
proof (cases "0 \<le> e")
  case True
  then show ?thesis by (simp add: pow2_def power_int_def)
next
  case False
  have "inverse (2::rat) ^ nat (- e) = 1 / 2 ^ nat (- e)"
    by (simp add: inverse_eq_divide power_one_over)
  then show ?thesis
    using False by (simp add: pow2_def power_int_def)
qed

lemma pow2_positive [simp]: "0 < pow2 e"
  by (simp add: pow2_powi)

lemma pow2_nonnegative [simp]: "0 \<le> pow2 e"
  using pow2_positive [of e] by (rule less_imp_le)

lemma pow2_nonzero [simp]: "pow2 e \<noteq> 0"
  by (simp add: pow2_powi)

lemma pow2_add: "pow2 (i + j) = pow2 i * pow2 j"
  by (simp add: pow2_powi power_int_add)

lemma pow2_one: "pow2 1 = 2"
  by (simp add: pow2_def)

lemma pow2_nat: "0 \<le> e \<Longrightarrow> pow2 e = of_int (2 ^ nat e)"
  by (simp add: pow2_def)

lemma double_half:
  fixes n p :: int
  shows "p \<le> n div 2 \<Longrightarrow> 2 * p \<le> n" and "n div 2 < p \<Longrightarrow> n < 2 * p"
  by simp_all

lemma bit_length_step: "0 < n \<Longrightarrow> bit_length n = 1 + bit_length (n div 2)"
  by (simp add: bit_length.simps [of n])

lemma bit_length_nonpositive: "n \<le> 0 \<Longrightarrow> bit_length n = 0"
  by (simp add: bit_length.simps [of n])

lemma bit_length_bounds:
  "0 < n \<Longrightarrow> 0 < bit_length n \<and> 2 ^ nat (bit_length n - 1) \<le> n \<and> n < 2 ^ nat (bit_length n)"
proof (induction n rule: bit_length.induct)
  case (1 n)
  have len: "bit_length n = 1 + bit_length (n div 2)"
    using "1.prems" by (rule bit_length_step)
  show ?case
  proof (cases "n = 1")
    case True
    then have "bit_length n = 1"
      using len by (simp add: bit_length_nonpositive)
    then show ?thesis
      using True by simp
  next
    case False
    then have half: "0 < n div 2"
      using "1.prems" by simp
    have ih: "0 < bit_length (n div 2) \<and> 2 ^ nat (bit_length (n div 2) - 1) \<le> n div 2
        \<and> n div 2 < 2 ^ nat (bit_length (n div 2))"
      using "1.prems" half by (intro "1.IH") simp_all
    have exp1: "nat (bit_length n - 1) = Suc (nat (bit_length (n div 2) - 1))"
      using len ih by linarith
    have exp2: "nat (bit_length n) = Suc (nat (bit_length (n div 2)))"
      using len ih by linarith
    have "2 * 2 ^ nat (bit_length (n div 2) - 1) \<le> n"
      using ih by (intro double_half(1)) simp
    moreover have "n < 2 * 2 ^ nat (bit_length (n div 2))"
      using ih by (intro double_half(2)) simp
    moreover have "0 < bit_length n"
      using len ih by simp
    ultimately show ?thesis
      unfolding exp1 exp2 by simp
  qed
qed

lemma bit_length_pow2:
  assumes "0 < n"
  shows "pow2 (bit_length n - 1) \<le> of_int n" and "of_int n < pow2 (bit_length n)"
proof -
  note b = bit_length_bounds [OF assms]
  have "pow2 (bit_length n - 1) = of_int (2 ^ nat (bit_length n - 1))"
    using b by (intro pow2_nat) simp
  also have "\<dots> \<le> of_int n"
    using b by (simp only: of_int_le_iff)
  finally show "pow2 (bit_length n - 1) \<le> of_int n" .
  have "of_int n < (of_int (2 ^ nat (bit_length n)) :: rat)"
    using b by (simp only: of_int_less_iff)
  also have "\<dots> = pow2 (bit_length n)"
    using b by (intro pow2_nat [symmetric]) simp
  finally show "of_int n < pow2 (bit_length n)" .
qed

lemma exponent_of_bounds:
  assumes "0 < x"
  shows "pow2 (exponent_of x) \<le> x" and "x < pow2 (exponent_of x + 1)"
proof -
  obtain a b where q: "quotient_of x = (a, b)"
    by (cases "quotient_of x")
  have b: "0 < b"
    using q by (rule quotient_of_denom_pos)
  have x: "x = of_int a / of_int b"
    using q by (rule quotient_of_div)
  have a: "0 < a"
    using assms b unfolding x by (simp add: zero_less_divide_iff)
  let ?e = "bit_length a - bit_length b"
  have B: "(0::rat) < of_int b"
    using b by simp
  have "pow2 (?e + 1) * pow2 (bit_length b - 1) = pow2 (bit_length a)"
    by (simp add: pow2_add [symmetric])
  then have "of_int a < pow2 (?e + 1) * pow2 (bit_length b - 1)"
    using bit_length_pow2(2) [OF a] by simp
  also have "\<dots> \<le> pow2 (?e + 1) * of_int b"
    using bit_length_pow2(1) [OF b] by (intro mult_left_mono) simp_all
  finally have upper: "x < pow2 (?e + 1)"
    unfolding x using B by (simp add: pos_divide_less_eq)
  have "pow2 (?e - 1) * of_int b < pow2 (?e - 1) * pow2 (bit_length b)"
    using bit_length_pow2(2) [OF b] by (intro mult_strict_left_mono) simp_all
  also have "\<dots> = pow2 (bit_length a - 1)"
    by (simp add: pow2_add [symmetric])
  also have "\<dots> \<le> of_int a"
    by (rule bit_length_pow2(1) [OF a])
  finally have lower: "pow2 (?e - 1) < x"
    unfolding x using B by (simp add: pos_less_divide_eq)
  have e: "exponent_of x = (if pow2 ?e \<le> x then ?e else ?e - 1)"
    by (simp add: exponent_of_def q)
  show "pow2 (exponent_of x) \<le> x"
    using lower unfolding e by simp
  show "x < pow2 (exponent_of x + 1)"
    using upper unfolding e by simp
qed

lemma round_half_even_near: "\<bar>of_int (round_half_even q) - q\<bar> \<le> 1 / 2"
proof -
  have "of_int \<lfloor>q\<rfloor> \<le> q" and "q < of_int \<lfloor>q\<rfloor> + 1"
    by linarith+
  then show ?thesis
    by (auto simp: round_half_even_def Let_def)
qed

lemma round_half_even_tie:
  "q - of_int \<lfloor>q\<rfloor> = 1 / 2 \<Longrightarrow> even (round_half_even q)"
  by (simp add: round_half_even_def Let_def)

lemma round_half_even_mono: "p \<le> q \<Longrightarrow> round_half_even p \<le> round_half_even q"
proof -
  assume le: "p \<le> q"
  have fp: "of_int \<lfloor>p\<rfloor> \<le> p" "p < of_int \<lfloor>p\<rfloor> + 1" and fq: "of_int \<lfloor>q\<rfloor> \<le> q" "q < of_int \<lfloor>q\<rfloor> + 1"
    by linarith+
  have "\<lfloor>p\<rfloor> \<le> \<lfloor>q\<rfloor>"
    using le by (rule floor_mono)
  then consider "\<lfloor>p\<rfloor> = \<lfloor>q\<rfloor>" | "\<lfloor>p\<rfloor> + 1 \<le> \<lfloor>q\<rfloor>"
    by linarith
  then show ?thesis
  proof cases
    case 1
    then show ?thesis
      using le by (auto simp: round_half_even_def Let_def)
  next
    case 2
    have "round_half_even p \<le> \<lfloor>p\<rfloor> + 1"
      by (simp add: round_half_even_def Let_def)
    also have "\<dots> \<le> \<lfloor>q\<rfloor>"
      by (rule 2)
    also have "\<dots> \<le> round_half_even q"
      by (simp add: round_half_even_def Let_def)
    finally show ?thesis .
  qed
qed

text \<open>The result of \<open>round_double\<close> has a significand of 53 binary digits and is nearest
  to the argument.\<close>

lemma round_double_significand:
  assumes "x \<noteq> 0"
  defines "m \<equiv> round_half_even (\<bar>x\<bar> / pow2 (exponent_of \<bar>x\<bar> - 52))"
  shows "round_double x = sgn x * of_int m * pow2 (exponent_of \<bar>x\<bar> - 52)"
    and "2 ^ 52 \<le> m" and "m \<le> 2 ^ 53"
proof -
  let ?e = "exponent_of \<bar>x\<bar>"
  let ?ulp = "pow2 (?e - 52)"
  let ?q = "\<bar>x\<bar> / ?ulp"
  show "round_double x = sgn x * of_int m * pow2 (exponent_of \<bar>x\<bar> - 52)"
    using assms(1) by (simp add: round_double_def Let_def m_def)
  have pos: "0 < \<bar>x\<bar>"
    using assms(1) by simp
  have "pow2 ?e = pow2 (52 + (?e - 52))" and "pow2 (?e + 1) = pow2 (53 + (?e - 52))"
    by (rule arg_cong [where f = pow2], simp)+
  then have "pow2 ?e = pow2 52 * ?ulp" and "pow2 (?e + 1) = pow2 53 * ?ulp"
    by (simp_all only: pow2_add)
  then have low: "pow2 52 \<le> ?q" and high: "?q \<le> pow2 53"
    using exponent_of_bounds [OF pos] by (simp_all add: pos_le_divide_eq pos_divide_le_eq)
  have p52: "pow2 52 = of_int (2 ^ 52)" and p53: "pow2 53 = of_int (2 ^ 53)"
    by (simp_all add: pow2_def)
  have r: "round_half_even (of_int k) = k" for k
    by (simp add: round_half_even_def Let_def)
  show "2 ^ 52 \<le> m"
    using round_half_even_mono [OF low] unfolding p52 r m_def .
  show "m \<le> 2 ^ 53"
    using round_half_even_mono [OF high] unfolding p53 r m_def .
qed

lemma round_double_near:
  assumes "x \<noteq> 0"
  shows "\<bar>round_double x - x\<bar> \<le> pow2 (exponent_of \<bar>x\<bar> - 52) / 2"
proof -
  let ?ulp = "pow2 (exponent_of \<bar>x\<bar> - 52)"
  let ?q = "\<bar>x\<bar> / ?ulp"
  let ?m = "round_half_even ?q"
  have "round_double x = sgn x * (of_int ?m * ?ulp)"
    using assms by (simp add: round_double_def Let_def mult.assoc)
  moreover have "x = sgn x * \<bar>x\<bar>"
    by (simp add: mult_sgn_abs)
  ultimately have "round_double x - x = sgn x * (of_int ?m * ?ulp - \<bar>x\<bar>)"
    by (simp only: right_diff_distrib)
  then have "\<bar>round_double x - x\<bar> = \<bar>sgn x\<bar> * \<bar>of_int ?m * ?ulp - \<bar>x\<bar>\<bar>"
    by (simp only: abs_mult)
  also have "\<dots> = \<bar>of_int ?m * ?ulp - \<bar>x\<bar>\<bar>"
    using assms by (simp add: abs_sgn_eq)
  also have "of_int ?m * ?ulp - \<bar>x\<bar> = (of_int ?m - ?q) * ?ulp"
    by (simp add: left_diff_distrib)
  also have "\<bar>(of_int ?m - ?q) * ?ulp\<bar> = \<bar>of_int ?m - ?q\<bar> * ?ulp"
    by (simp add: abs_mult)
  also have "\<dots> \<le> 1 / 2 * ?ulp"
    using round_half_even_near [of ?q] by (intro mult_right_mono) simp_all
  finally show ?thesis by simp
qed

lemma doubles_by_evaluation:
  "round_double (8 / 10) = 3602879701896397 / 4503599627370496"
  "round_double (6 / 10) = 5404319552844595 / 9007199254740992"
  "round_double (2 / 10) = 3602879701896397 / 18014398509481984"
  "round_double (1 - round_double (4 / 10)) = round_double (6 / 10)"
  "round_double (round_double (1 / 10) + round_double (2 / 10))
     = 1351079888211149 / 4503599627370496"
  by code_simp+

subsection \<open>The similarity of the empty name\<close>

lemma round_double_zero [simp]: "round_double 0 = 0"
  by (simp add: round_double_def)

lemma four_fifths_is_rounded: "round_double (round_double (8 / 10)) = round_double (8 / 10)"
  by code_simp

lemma four_fifths_above_threshold: "round_double (6 / 10) < round_double (8 / 10)"
  by code_simp

text \<open>
  C9. Against every non-empty name the empty name scores 0.8 (the number the literal
  \<^verbatim>\<open>0.8\<close> denotes): the two differ, the containment tier applies because every string
  includes the empty one, and the shorter length is 0. The score is above the threshold
  0.6.
\<close>

theorem empty_name_scores_four_fifths:
  "s \<noteq> [] \<Longrightarrow>
   calculate_similarity [] s = Some (round_double (8 / 10))
   \<and> round_double (6 / 10) < round_double (8 / 10)"
  using four_fifths_is_rounded four_fifths_above_threshold
  by (simp add: calculate_similarity_def includes_str_empty divide_number_def)

theorem empty_name_scores_four_fifths_witness:
  "''hips'' \<noteq> [] \<and> calculate_similarity [] ''hips'' = Some (round_double (8 / 10))"
  using empty_name_scores_four_fifths [of "''hips''"] by simp

subsection \<open>The edit distance\<close>

lemma edit_step_Cons: "edit_step s t \<Longrightarrow> edit_step (x # s) (x # t)"
proof (induction rule: edit_step.induct)
  case (insertion a b c)
  show ?case using edit_step.insertion [of "x # a" b c] by simp
next
  case (deletion a c b)
  show ?case using edit_step.deletion [of "x # a" c b] by simp
next
  case (substitution a c b d)
  show ?case using edit_step.substitution [of "x # a" c b d] by simp
qed

lemma edits_Cons: "edits n s t \<Longrightarrow> edits n (x # s) (x # t)"
  by (induction rule: edits.induct) (auto intro: edits.intros edit_step_Cons)

lemma edit_step_insert_front: "edit_step s (c # s)"
  using edit_step.insertion [of "[]" s c] by simp

lemma edit_step_delete_front: "edit_step (c # s) s"
  using edit_step.deletion [of "[]" c s] by simp

lemma edit_step_substitute_front: "edit_step (c # s) (d # s)"
  using edit_step.substitution [of "[]" c s d] by simp

lemma prefix_distance_Nil2 [simp]: "prefix_distance xs [] = length xs"
  by (cases xs) simp_all

lemma edits_insert_all: "edits (length ys) [] ys"
proof (induction ys)
  case Nil
  show ?case by (simp add: edits.no_edit)
next
  case (Cons y ys)
  have "edits (Suc (length ys)) [] (y # ys)"
    using edit_step_insert_front [of "[]" y] edits_Cons [OF Cons, of y]
    by (rule edits.one_more)
  then show ?case by simp
qed

lemma edits_delete_all: "edits (length xs) xs []"
proof (induction xs)
  case Nil
  show ?case by (simp add: edits.no_edit)
next
  case (Cons x xs)
  have "edits (Suc (length xs)) (x # xs) []"
    using edit_step_delete_front [of x xs] Cons by (rule edits.one_more)
  then show ?case by simp
qed

lemma edits_prefix_distance: "edits (prefix_distance xs ys) xs ys"
proof (induction xs ys rule: prefix_distance.induct)
  case (1 ys)
  show ?case using edits_insert_all [of ys] by simp
next
  case (2 x xs)
  show ?case using edits_delete_all [of "x # xs"] by simp
next
  case (3 x xs y ys)
  let ?d = "prefix_distance xs (y # ys) + 1"
  let ?i = "prefix_distance (x # xs) ys + 1"
  let ?s = "prefix_distance xs ys + (if x = y then 0 else 1)"
  have d: "edits ?d (x # xs) (y # ys)"
    using edit_step_delete_front [of x xs] "3.IH"(1) edits.one_more by fastforce
  have i: "edits ?i (x # xs) (y # ys)"
    using edit_step_insert_front [of "x # xs" y] edits_Cons [OF "3.IH"(2), of y] edits.one_more
    by fastforce
  have s: "edits ?s (x # xs) (y # ys)"
  proof (cases "x = y")
    case True
    then show ?thesis using edits_Cons [OF "3.IH"(3), of y] by simp
  next
    case False
    then show ?thesis
      using edit_step_substitute_front [of x xs y] edits_Cons [OF "3.IH"(3), of y] edits.one_more
      by fastforce
  qed
  have "prefix_distance (x # xs) (y # ys) = ?d \<or> prefix_distance (x # xs) (y # ys) = ?i
      \<or> prefix_distance (x # xs) (y # ys) = ?s"
    by (auto simp: min_def)
  then show ?case
    using d i s by metis
qed

lemma prefix_distance_same [simp]: "prefix_distance xs xs = 0"
  by (induction xs) simp_all

lemma prefix_distance_right: "prefix_distance xs (y # ys) \<le> prefix_distance xs ys + 1"
  by (cases xs) simp_all

lemma prefix_distance_delete_front: "prefix_distance (c # b) t \<le> prefix_distance b t + 1"
  by (cases t) simp_all

lemma min3_mono:
  fixes a b c :: nat
  assumes "a \<le> a' + 1" and "b \<le> b' + 1" and "c \<le> c' + 1"
  shows "min a (min b c) \<le> min a' (min b' c') + 1"
  using assms by (simp add: min_def)

lemma prefix_distance_insert_front: "prefix_distance b t \<le> prefix_distance (c # b) t + 1"
proof (induction t)
  case Nil
  show ?case by simp
next
  case (Cons y ys)
  have "prefix_distance b (y # ys) \<le> prefix_distance b (y # ys) + 1 + 1"
    by simp
  moreover have "prefix_distance b (y # ys) \<le> prefix_distance (c # b) ys + 1 + 1"
    using Cons prefix_distance_right [of b y ys] by simp
  moreover have "prefix_distance b (y # ys) \<le> prefix_distance b ys + (if c = y then 0 else 1) + 1"
    using prefix_distance_right [of b y ys] by simp
  ultimately show ?case
    unfolding prefix_distance.simps by simp
qed

lemma prefix_distance_substitute_front:
  "prefix_distance (c # b) t \<le> prefix_distance (d # b) t + 1"
proof (induction t)
  case Nil
  show ?case by simp
next
  case (Cons y ys)
  show ?case
    unfolding prefix_distance.simps
  proof (rule min3_mono)
    show "prefix_distance b (y # ys) + 1 \<le> prefix_distance b (y # ys) + 1 + 1"
      by simp
    show "prefix_distance (c # b) ys + 1 \<le> prefix_distance (d # b) ys + 1 + 1"
      using Cons by simp
    show "prefix_distance b ys + (if c = y then 0 else 1)
        \<le> prefix_distance b ys + (if d = y then 0 else 1) + 1"
      by simp
  qed
qed

lemma prefix_distance_Cons_step:
  assumes "\<And>t. prefix_distance u t \<le> prefix_distance u' t + 1"
  shows "prefix_distance (x # u) t \<le> prefix_distance (x # u') t + 1"
proof (induction t)
  case Nil
  show ?case using assms [of "[]"] by simp
next
  case (Cons y ys)
  show ?case
    unfolding prefix_distance.simps
  proof (rule min3_mono)
    show "prefix_distance u (y # ys) + 1 \<le> prefix_distance u' (y # ys) + 1 + 1"
      using assms [of "y # ys"] by simp
    show "prefix_distance (x # u) ys + 1 \<le> prefix_distance (x # u') ys + 1 + 1"
      using Cons by simp
    show "prefix_distance u ys + (if x = y then 0 else 1)
        \<le> prefix_distance u' ys + (if x = y then 0 else 1) + 1"
      using assms [of ys] by simp
  qed
qed

lemma prefix_distance_context:
  assumes "\<And>t. prefix_distance u t \<le> prefix_distance u' t + 1"
  shows "prefix_distance (a @ u) t \<le> prefix_distance (a @ u') t + 1"
proof (induction a arbitrary: t)
  case Nil
  show ?case using assms by simp
next
  case (Cons x a)
  show ?case
    using prefix_distance_Cons_step [of "a @ u" "a @ u'" x t] Cons by simp
qed

lemma prefix_distance_edit_step:
  assumes "edit_step s s'"
  shows "prefix_distance s t \<le> prefix_distance s' t + 1"
  using assms
proof (cases rule: edit_step.cases)
  case (insertion a b c)
  show ?thesis
    unfolding insertion
    using prefix_distance_context [of b "[c] @ b" a t] prefix_distance_insert_front [of b _ c]
    by simp
next
  case (deletion a c b)
  show ?thesis
    unfolding deletion
    using prefix_distance_context [of "[c] @ b" b a t] prefix_distance_delete_front [of c b]
    by simp
next
  case (substitution a c b d)
  show ?thesis
    unfolding substitution
    using prefix_distance_context [of "[c] @ b" "[d] @ b" a t]
      prefix_distance_substitute_front [of c b _ d]
    by simp
qed

lemma prefix_distance_least: "edits m s t \<Longrightarrow> prefix_distance s t \<le> m"
proof (induction rule: edits.induct)
  case (no_edit s)
  show ?case by simp
next
  case (one_more s t n u)
  then show ?case
    using prefix_distance_edit_step [of s t u] by simp
qed

lemma edit_step_rev: "edit_step s t \<Longrightarrow> edit_step (rev s) (rev t)"
proof (induction rule: edit_step.induct)
  case (insertion a b c)
  show ?case using edit_step.insertion [of "rev b" "rev a" c] by simp
next
  case (deletion a c b)
  show ?case using edit_step.deletion [of "rev b" c "rev a"] by simp
next
  case (substitution a c b d)
  show ?case using edit_step.substitution [of "rev b" c "rev a" d] by simp
qed

lemma edits_rev: "edits n s t \<Longrightarrow> edits n (rev s) (rev t)"
  by (induction rule: edits.induct) (auto intro: edits.intros edit_step_rev)

lemma edits_rev_iff: "edits n (rev s) (rev t) \<longleftrightarrow> edits n s t"
  using edits_rev [of n s t] edits_rev [of n "rev s" "rev t"] by auto

lemma lev_cell_prefix_distance:
  "i \<le> length a \<Longrightarrow> j \<le> length b \<Longrightarrow>
   lev_cell a b i j = prefix_distance (rev (take i a)) (rev (take j b))"
proof (induction a b i j rule: lev_cell.induct)
  case (1 a b j)
  then show ?case by simp
next
  case (2 a b i)
  then show ?case by simp
next
  case (3 a b i j)
  then have i: "i < length a" and j: "j < length b"
    by simp_all
  have ta: "rev (take (Suc i) a) = a ! i # rev (take i a)"
    using i by (simp add: take_Suc_conv_app_nth)
  have tb: "rev (take (Suc j) b) = b ! j # rev (take j b)"
    using j by (simp add: take_Suc_conv_app_nth)
  show ?case
    using "3.IH" "3.prems" i j
    unfolding lev_cell.simps
    by (simp only: ta tb prefix_distance.simps)
qed

lemma lev_cell_minimal:
  "edits (lev_cell s t (length s) (length t)) s t"
  "edits m s t \<Longrightarrow> lev_cell s t (length s) (length t) \<le> m"
proof -
  have eq: "lev_cell s t (length s) (length t) = prefix_distance (rev s) (rev t)"
    by (simp add: lev_cell_prefix_distance)
  show "edits (lev_cell s t (length s) (length t)) s t"
    unfolding eq using edits_prefix_distance [of "rev s" "rev t"] by (simp add: edits_rev_iff)
  show "edits m s t \<Longrightarrow> lev_cell s t (length s) (length t) \<le> m"
    unfolding eq using prefix_distance_least [of m "rev s" "rev t"] by (simp add: edits_rev_iff)
qed

subsection \<open>The loops of \<^verbatim>\<open>levenshtein_distance\<close>\<close>

lemma for_loop_invariant:
  assumes "lo \<le> Suc hi"
    and "I lo s"
    and "\<And>i s. lo \<le> i \<Longrightarrow> i \<le> hi \<Longrightarrow> I i s \<Longrightarrow> \<exists>s'. body i s = Some s' \<and> I (Suc i) s'"
  shows "\<exists>s'. for_loop lo hi body s = Some s' \<and> I (Suc hi) s'"
  using assms
proof (induction "Suc hi - lo" arbitrary: lo s)
  case 0
  then have "lo = Suc hi" by simp
  then show ?case
    using "0.prems"(2) by (simp add: for_loop.simps)
next
  case (Suc n)
  then have le: "lo \<le> hi" by simp
  then obtain s' where s': "body lo s = Some s'" "I (Suc lo) s'"
    using Suc.prems(2,3) by blast
  have "\<exists>s''. for_loop (Suc lo) hi body s' = Some s'' \<and> I (Suc hi) s''"
  proof (rule Suc.hyps(1))
    show "n = Suc hi - Suc lo" using Suc.hyps(2) by simp
    show "Suc lo \<le> Suc hi" using le by simp
    show "I (Suc lo) s'" by (rule s'(2))
    show "\<And>i s. Suc lo \<le> i \<Longrightarrow> i \<le> hi \<Longrightarrow> I i s \<Longrightarrow> \<exists>s'. body i s = Some s' \<and> I (Suc i) s'"
      using Suc.prems(3) by simp
  qed
  then show ?case
    using le s'(1) by (subst for_loop.simps) simp
qed

lemma init_rows:
  "for_loop 0 len1 (\<lambda>i matrix. array_set matrix i [i]) [] = Some (map (\<lambda>k. [k]) [0..<Suc len1])"
proof -
  have "\<exists>m. for_loop 0 len1 (\<lambda>i matrix. array_set matrix i [i]) [] = Some m
      \<and> m = map (\<lambda>k. [k]) [0..<Suc len1]"
    by (rule for_loop_invariant [where I = "\<lambda>i m. m = map (\<lambda>k. [k]) [0..<i]"])
      (simp_all add: array_set_def)
  then show ?thesis by simp
qed

lemma rows_done_1:
  "rows_done a b 1 = [0..<Suc (length b)] # map (\<lambda>k. [k]) [1..<Suc (length a)]"
proof -
  have "full_row a b 0 = [0..<Suc (length b)]"
    unfolding full_row_def by (rule nth_equalityI) (simp_all del: upt_Suc)
  moreover have "[0..<Suc (length a)] = 0 # [1..<Suc (length a)]"
    by (simp add: upt_conv_Cons del: upt_Suc)
  ultimately show ?thesis
    by (simp add: rows_done_def del: upt_Suc)
qed

lemma init_first_row:
  "for_loop 0 (length b) (\<lambda>j matrix. set_cell matrix 0 j j) (map (\<lambda>k. [k]) [0..<Suc (length a)])
     = Some (rows_done a b 1)"
proof -
  let ?rest = "map (\<lambda>k. [k]) [1..<Suc (length a)]"
  have start: "map (\<lambda>k. [k]) [0..<Suc (length a)] = [0..<max 1 0] # ?rest"
    by (simp add: upt_conv_Cons del: upt_Suc)
  have "\<exists>m. for_loop 0 (length b) (\<lambda>j matrix. set_cell matrix 0 j j) ([0..<max 1 0] # ?rest) = Some m
      \<and> m = [0..<max 1 (Suc (length b))] # ?rest"
  proof (rule for_loop_invariant [where I = "\<lambda>j m. m = [0..<max 1 j] # ?rest"])
    fix j and m :: matrix
    assume m: "m = [0..<max 1 j] # ?rest"
    show "\<exists>s'. set_cell m 0 j j = Some s' \<and> s' = [0..<max 1 (Suc j)] # ?rest"
    proof (cases j)
      case 0
      then show ?thesis
        using m by (simp add: set_cell_def array_get_def array_set_def)
    next
      case (Suc j')
      then show ?thesis
        using m by (simp add: set_cell_def array_get_def array_set_def)
    qed
  qed simp_all
  then show ?thesis
    unfolding start rows_done_1 by simp
qed

lemma length_row_partial [simp]: "length (row_partial a b i j) = Suc (length a)"
  by (simp add: row_partial_def)

lemma nth_row_partial:
  "k \<le> length a \<Longrightarrow>
   row_partial a b i j ! k =
     (if k < i then full_row a b k else if k = i then map (lev_cell a b i) [0..<j] else [k])"
  unfolding row_partial_def by (subst nth_map_upt) simp_all

lemma nth_full_row: "j \<le> length b \<Longrightarrow> full_row a b k ! j = lev_cell a b k j"
  unfolding full_row_def by (subst nth_map_upt) simp_all

lemma length_full_row [simp]: "length (full_row a b k) = Suc (length b)"
  by (simp add: full_row_def)

lemma cell_above:
  assumes "i < length a" and "j \<le> length b"
  shows "cell (row_partial a b (Suc i) j') i j = Some (lev_cell a b i j)"
  using assms by (simp add: cell_def array_get_def nth_row_partial nth_full_row)

lemma cell_left:
  assumes "i < length a" and "j < j'"
  shows "cell (row_partial a b (Suc i) j') (Suc i) j = Some (lev_cell a b (Suc i) j)"
  using assms by (simp add: cell_def array_get_def nth_row_partial)

lemma set_cell_next:
  assumes "i < length a"
  shows "set_cell (row_partial a b (Suc i) j) (Suc i) j (lev_cell a b (Suc i) j)
     = Some (row_partial a b (Suc i) (Suc j))"
proof -
  let ?m = "row_partial a b (Suc i) j"
  let ?row = "map (lev_cell a b (Suc i)) [0..<j]"
  have row: "array_get ?m (Suc i) = Some ?row"
    using assms by (simp add: array_get_def nth_row_partial)
  have grow: "array_set ?row j (lev_cell a b (Suc i) j) = Some (map (lev_cell a b (Suc i)) [0..<Suc j])"
    by (simp add: array_set_def)
  have put: "array_set ?m (Suc i) (map (lev_cell a b (Suc i)) [0..<Suc j])
      = Some (?m[Suc i := map (lev_cell a b (Suc i)) [0..<Suc j]])"
    using assms by (simp add: array_set_def)
  have "?m[Suc i := map (lev_cell a b (Suc i)) [0..<Suc j]] = row_partial a b (Suc i) (Suc j)"
  proof (rule nth_equalityI)
    show "length (?m[Suc i := map (lev_cell a b (Suc i)) [0..<Suc j]])
        = length (row_partial a b (Suc i) (Suc j))"
      by simp
  next
    fix k
    assume "k < length (?m[Suc i := map (lev_cell a b (Suc i)) [0..<Suc j]])"
    then have k: "k \<le> length a" by simp
    show "?m[Suc i := map (lev_cell a b (Suc i)) [0..<Suc j]] ! k = row_partial a b (Suc i) (Suc j) ! k"
      using k assms by (cases "k = Suc i") (simp_all add: nth_row_partial del: upt_Suc)
  qed
  then show ?thesis
    unfolding set_cell_def row using grow put by simp
qed

lemma fill_cell_next:
  assumes "i < length a" and "j < length b"
  shows "fill_cell a b (Suc i) (Suc j) (row_partial a b (Suc i) (Suc j))
     = Some (row_partial a b (Suc i) (Suc (Suc j)))"
proof -
  have cost: "(array_get a i = array_get b j) = (a ! i = b ! j)"
    using assms by (simp add: array_get_def)
  have "fill_cell a b (Suc i) (Suc j) (row_partial a b (Suc i) (Suc j))
      = set_cell (row_partial a b (Suc i) (Suc j)) (Suc i) (Suc j) (lev_cell a b (Suc i) (Suc j))"
    using assms cost
    by (simp add: fill_cell_def cell_above cell_left Let_def)
  then show ?thesis
    using set_cell_next [OF assms(1), of b "Suc j"] by simp
qed

lemma rows_done_row_partial:
  "i < length a \<Longrightarrow> rows_done a b (Suc i) = row_partial a b (Suc i) 1"
  unfolding rows_done_def row_partial_def by (rule map_cong) auto

lemma row_partial_rows_done:
  "row_partial a b i (Suc (length b)) = rows_done a b (Suc i)"
  unfolding rows_done_def row_partial_def full_row_def
  by (rule map_cong) (auto simp: less_Suc_eq)

lemma fill_row:
  assumes "i < length a"
  shows "for_loop 1 (length b) (\<lambda>j matrix. fill_cell a b (Suc i) j matrix) (rows_done a b (Suc i))
     = Some (rows_done a b (Suc (Suc i)))"
proof -
  have "\<exists>m. for_loop 1 (length b) (\<lambda>j matrix. fill_cell a b (Suc i) j matrix)
        (row_partial a b (Suc i) 1) = Some m
      \<and> m = row_partial a b (Suc i) (Suc (length b))"
  proof (rule for_loop_invariant [where I = "\<lambda>j m. m = row_partial a b (Suc i) j"])
    fix j and m :: matrix
    assume "1 \<le> j" and "j \<le> length b" and m: "m = row_partial a b (Suc i) j"
    then obtain j' where j': "j = Suc j'" "j' < length b"
      by (cases j) simp_all
    show "\<exists>s'. fill_cell a b (Suc i) j m = Some s' \<and> s' = row_partial a b (Suc i) (Suc j)"
      unfolding m j' using fill_cell_next [OF assms j'(2)] by simp
  qed simp_all
  then show ?thesis
    by (simp add: rows_done_row_partial [OF assms] row_partial_rows_done)
qed

lemma fill_matrix:
  "for_loop 1 (length a)
     (\<lambda>i matrix. for_loop 1 (length b) (\<lambda>j matrix. fill_cell a b i j matrix) matrix)
     (rows_done a b 1)
   = Some (rows_done a b (Suc (length a)))"
proof -
  let ?body = "\<lambda>i matrix. for_loop 1 (length b) (\<lambda>j matrix. fill_cell a b i j matrix) matrix"
  have "\<exists>m. for_loop 1 (length a) ?body (rows_done a b 1) = Some m
      \<and> m = rows_done a b (Suc (length a))"
  proof (rule for_loop_invariant [where I = "\<lambda>i m. m = rows_done a b i"])
    fix i and m :: matrix
    assume "1 \<le> i" and "i \<le> length a" and m: "m = rows_done a b i"
    then obtain i' where i': "i = Suc i'" "i' < length a"
      by (cases i) simp_all
    show "\<exists>s'. ?body i m = Some s' \<and> s' = rows_done a b (Suc i)"
      unfolding m i' using fill_row [OF i'(2)] by simp
  qed simp_all
  then show ?thesis by simp
qed

lemma cell_result:
  "cell (rows_done a b (Suc (length a))) (length a) (length b)
     = Some (lev_cell a b (length a) (length b))"
proof -
  have "rows_done a b (Suc (length a)) ! length a = full_row a b (length a)"
    unfolding rows_done_def by (subst nth_map_upt) simp_all
  then show ?thesis
    by (simp add: cell_def array_get_def rows_done_def nth_full_row)
qed

lemma levenshtein_distance_lev_cell:
  "levenshtein_distance str1 str2 = Some (lev_cell str1 str2 (length str1) (length str2))"
  unfolding levenshtein_distance_def Let_def
  by (simp only: init_rows init_first_row fill_matrix cell_result Option.bind.bind_lunit)

text \<open>
  C3. For every pair of strings \<^verbatim>\<open>levenshtein_distance\<close> returns a number, the two strings
  are that many single-character insertions, deletions and substitutions apart, and no
  shorter sequence of such edits transforms the first into the second. In particular the
  distance of \<open>kitten\<close> and \<open>sitting\<close> is 3, that of two empty strings 0, and that of
  \<open>a\<close> and the empty string 1.
\<close>

theorem levenshtein_distance_is_edit_distance:
  "(\<exists>n. levenshtein_distance str1 str2 = Some n
        \<and> edits n str1 str2 \<and> (\<forall>m. edits m str1 str2 \<longrightarrow> n \<le> m))
   \<and> levenshtein_distance ''kitten'' ''sitting'' = Some 3
   \<and> levenshtein_distance '''' '''' = Some 0
   \<and> levenshtein_distance ''a'' '''' = Some 1"
proof -
  have "levenshtein_distance ''kitten'' ''sitting'' = Some 3"
    by code_simp
  moreover have "levenshtein_distance '''' '''' = Some 0"
    by code_simp
  moreover have "levenshtein_distance ''a'' '''' = Some 1"
    by code_simp
  ultimately show ?thesis
    using levenshtein_distance_lev_cell [of str1 str2] lev_cell_minimal [where s = str1 and t = str2]
    by blast
qed

theorem levenshtein_distance_is_edit_distance_witness:
  "edits 1 ''ab'' ''b'' \<and> (\<exists>n. levenshtein_distance ''ab'' ''b'' = Some n \<and> n \<le> 1)"
proof -
  have e: "edits 1 ''ab'' ''b''"
    using edits.one_more [OF edit_step_delete_front [of "CHR ''a''" "''b''"] edits.no_edit]
    by simp
  then show ?thesis
    using levenshtein_distance_is_edit_distance [of "''ab''" "''b''"] by blast
qed

text \<open>Hence every score is a number, and the case \<open>None\<close> of the loop of
  \<^verbatim>\<open>find_best_match\<close> is never taken.\<close>

lemma calculate_similarity_defined: "\<exists>score. calculate_similarity name1 name2 = Some score"
proof (cases "name1 = name2")
  case True
  then show ?thesis by (simp add: calculate_similarity_def)
next
  case False
  then have "max (length name1) (length name2) \<noteq> 0"
    by (cases name1; cases name2) simp_all
  then show ?thesis
    by (simp add: calculate_similarity_def divide_number_def Let_def levenshtein_distance_lev_cell)
qed

subsection \<open>Recognition of the known convention\<close>

lemma to_lower_signature: "toLowerCase ''mixamorig'' = ''mixamorig''"
  by (simp add: toLowerCase_def to_lower_char_def code_unit_def)

lemma includes_lower_iff:
  "includes_str (toLowerCase n) sig \<longleftrightarrow> (\<exists>a u b. n = a @ u @ b \<and> toLowerCase u = sig)"
proof
  assume "includes_str (toLowerCase n) sig"
  then obtain a b where "map to_lower_char n = a @ sig @ b"
    unfolding includes_str_iff toLowerCase_def by blast
  then show "\<exists>a u b. n = a @ u @ b \<and> toLowerCase u = sig"
    unfolding toLowerCase_def by (rule map_eq_append3)
next
  assume "\<exists>a u b. n = a @ u @ b \<and> toLowerCase u = sig"
  then obtain a u b where "n = a @ u @ b" and "toLowerCase u = sig"
    by blast
  then have "toLowerCase n = toLowerCase a @ sig @ toLowerCase b"
    by (simp add: toLowerCase_def)
  then show "includes_str (toLowerCase n) sig"
    unfolding includes_str_iff by blast
qed

lemma includes_lower_signature:
  "includes_str (toLowerCase n) ''mixamorig'' \<longleftrightarrow> contains_ignore_case n ''mixamorig''"
  unfolding contains_ignore_case_def to_lower_signature by (rule includes_lower_iff)

text \<open>
  C7. The recognition predicate holds exactly when at least one of the names contains
  \<open>mixamorig\<close> case-insensitively. It holds for \<open>mixamorigHips\<close>, \<open>mixamorigSpine\<close> and
  fails for \<open>Hips\<close>, \<open>Spine\<close>.
\<close>

theorem recognition_iff_some_name_contains_signature:
  "(is_target_valid_skeleton bone_names
      \<longleftrightarrow> (\<exists>bone_name \<in> set bone_names. contains_ignore_case bone_name ''mixamorig''))
   \<and> is_target_valid_skeleton [''mixamorigHips'', ''mixamorigSpine'']
   \<and> \<not> is_target_valid_skeleton [''Hips'', ''Spine'']"
proof -
  have "is_target_valid_skeleton [''mixamorigHips'', ''mixamorigSpine'']"
    by code_simp
  moreover have "\<not> is_target_valid_skeleton [''Hips'', ''Spine'']"
    by code_simp
  ultimately show ?thesis
    by (simp add: is_target_valid_skeleton_def list_ex_iff includes_lower_signature)
qed

theorem recognition_witness:
  "is_target_valid_skeleton [''Root'', ''MixamoRig:Hips'']
   \<and> (\<exists>bone_name \<in> set [''Root'', ''MixamoRig:Hips'']. contains_ignore_case bone_name ''mixamorig'')"
proof -
  have "is_target_valid_skeleton [''Root'', ''MixamoRig:Hips'']"
    by code_simp
  then show ?thesis
    using recognition_iff_some_name_contains_signature [of "[''Root'', ''MixamoRig:Hips'']"]
    by blast
qed

subsection \<open>The generic mapper\<close>

lemma threshold_positive: "0 < round_double (6 / 10)"
  by code_simp

lemma best_match_loop_unchanged:
  assumes "\<forall>x \<in> set srcs. \<forall>sc. calculate_similarity nt (normalize_bone_name x) = Some sc
             \<longrightarrow> \<not> (bs < sc \<and> round_double (6 / 10) \<le> sc)"
  shows "best_match_loop nt bm bs srcs = bm"
  using assms by (induction srcs arbitrary: bm bs) (auto split: option.splits)

text \<open>What the loop returns: either no candidate was accepted, or the accepted one is the
  first, in the order of the list, that has the greatest score.\<close>

lemma best_match_loop_result:
  "(best_match_loop nt bm bs srcs = bm
      \<and> (\<forall>x \<in> set srcs. \<forall>sc. calculate_similarity nt (normalize_bone_name x) = Some sc
             \<longrightarrow> \<not> (bs < sc \<and> round_double (6 / 10) \<le> sc)))
   \<or> (\<exists>earlier s later score.
         srcs = earlier @ s # later
         \<and> best_match_loop nt bm bs srcs = Some s
         \<and> calculate_similarity nt (normalize_bone_name s) = Some score
         \<and> bs < score \<and> round_double (6 / 10) \<le> score
         \<and> (\<forall>x \<in> set earlier. \<forall>sc. calculate_similarity nt (normalize_bone_name x) = Some sc
               \<longrightarrow> sc < score)
         \<and> (\<forall>x \<in> set later. \<forall>sc. calculate_similarity nt (normalize_bone_name x) = Some sc
               \<longrightarrow> sc \<le> score))"
proof (induction srcs arbitrary: bm bs)
  case Nil
  show ?case by simp
next
  case (Cons x xs)
  let ?thr = "round_double (6 / 10)"
  let ?calc = "\<lambda>y. calculate_similarity nt (normalize_bone_name y)"
  show ?case
  proof (cases "\<exists>sc. ?calc x = Some sc \<and> bs < sc \<and> ?thr \<le> sc")
    case True
    then obtain sc where sc: "?calc x = Some sc" "bs < sc" "?thr \<le> sc"
      by blast
    then have step: "best_match_loop nt bm bs (x # xs) = best_match_loop nt (Some x) sc xs"
      by simp
    from Cons.IH [of "Some x" sc]
    consider (stay) "best_match_loop nt (Some x) sc xs = Some x"
        "\<forall>y \<in> set xs. \<forall>sc'. ?calc y = Some sc' \<longrightarrow> \<not> (sc < sc' \<and> ?thr \<le> sc')"
      | (move) earlier s later score where "xs = earlier @ s # later"
        "best_match_loop nt (Some x) sc xs = Some s" "?calc s = Some score" "sc < score"
        "?thr \<le> score"
        "\<forall>y \<in> set earlier. \<forall>sc'. ?calc y = Some sc' \<longrightarrow> sc' < score"
        "\<forall>y \<in> set later. \<forall>sc'. ?calc y = Some sc' \<longrightarrow> sc' \<le> score"
      by blast
    then show ?thesis
    proof cases
      case stay
      have "\<forall>y \<in> set xs. \<forall>sc'. ?calc y = Some sc' \<longrightarrow> sc' \<le> sc"
        using stay(2) sc(3) by force
      then have "x # xs = [] @ x # xs \<and> best_match_loop nt bm bs (x # xs) = Some x
          \<and> ?calc x = Some sc \<and> bs < sc \<and> ?thr \<le> sc
          \<and> (\<forall>y \<in> set []. \<forall>sc'. ?calc y = Some sc' \<longrightarrow> sc' < sc)
          \<and> (\<forall>y \<in> set xs. \<forall>sc'. ?calc y = Some sc' \<longrightarrow> sc' \<le> sc)"
        using step stay(1) sc by simp
      then show ?thesis by blast
    next
      case move
      have "\<forall>y \<in> set (x # earlier). \<forall>sc'. ?calc y = Some sc' \<longrightarrow> sc' < score"
        using move(4,6) sc(1) by auto
      then have "x # xs = (x # earlier) @ s # later \<and> best_match_loop nt bm bs (x # xs) = Some s
          \<and> ?calc s = Some score \<and> bs < score \<and> ?thr \<le> score
          \<and> (\<forall>y \<in> set (x # earlier). \<forall>sc'. ?calc y = Some sc' \<longrightarrow> sc' < score)
          \<and> (\<forall>y \<in> set later. \<forall>sc'. ?calc y = Some sc' \<longrightarrow> sc' \<le> score)"
        using step move sc(2) by simp
      then show ?thesis by blast
    qed
  next
    case False
    then have step: "best_match_loop nt bm bs (x # xs) = best_match_loop nt bm bs xs"
      by (auto split: option.splits)
    have x: "\<forall>sc. ?calc x = Some sc \<longrightarrow> \<not> (bs < sc \<and> ?thr \<le> sc)"
      using False by blast
    from Cons.IH [of bm bs]
    consider (stay) "best_match_loop nt bm bs xs = bm"
        "\<forall>y \<in> set xs. \<forall>sc'. ?calc y = Some sc' \<longrightarrow> \<not> (bs < sc' \<and> ?thr \<le> sc')"
      | (move) earlier s later score where "xs = earlier @ s # later"
        "best_match_loop nt bm bs xs = Some s" "?calc s = Some score" "bs < score"
        "?thr \<le> score"
        "\<forall>y \<in> set earlier. \<forall>sc'. ?calc y = Some sc' \<longrightarrow> sc' < score"
        "\<forall>y \<in> set later. \<forall>sc'. ?calc y = Some sc' \<longrightarrow> sc' \<le> score"
      by blast
    then show ?thesis
    proof cases
      case stay
      then show ?thesis
        using step x by simp
    next
      case move
      have "\<forall>sc'. ?calc x = Some sc' \<longrightarrow> sc' < score"
        using x move(4,5) by force
      then have "\<forall>y \<in> set (x # earlier). \<forall>sc'. ?calc y = Some sc' \<longrightarrow> sc' < score"
        using move(6) by simp
      then have "x # xs = (x # earlier) @ s # later \<and> best_match_loop nt bm bs (x # xs) = Some s
          \<and> ?calc s = Some score \<and> bs < score \<and> ?thr \<le> score
          \<and> (\<forall>y \<in> set (x # earlier). \<forall>sc'. ?calc y = Some sc' \<longrightarrow> sc' < score)
          \<and> (\<forall>y \<in> set later. \<forall>sc'. ?calc y = Some sc' \<longrightarrow> sc' \<le> score)"
        using step move by simp
      then show ?thesis by blast
    qed
  qed
qed

lemma best_match_loop_first_best:
  assumes "calculate_similarity nt (normalize_bone_name s) = Some score"
    and "bs < score" and "round_double (6 / 10) \<le> score"
    and "\<forall>x \<in> set earlier. \<forall>sc. calculate_similarity nt (normalize_bone_name x) = Some sc
           \<longrightarrow> sc < score"
    and "\<forall>x \<in> set later. \<forall>sc. calculate_similarity nt (normalize_bone_name x) = Some sc
           \<longrightarrow> sc \<le> score"
  shows "best_match_loop nt bm bs (earlier @ s # later) = Some s"
  using assms(2,4)
proof (induction earlier arbitrary: bm bs)
  case Nil
  have "best_match_loop nt (Some s) score later = Some s"
    by (rule best_match_loop_unchanged) (use assms(5) in force)
  then show ?case
    using assms(1,3) Nil.prems(1) by simp
next
  case (Cons x earlier)
  show ?case
  proof (cases "\<exists>sc. calculate_similarity nt (normalize_bone_name x) = Some sc
      \<and> bs < sc \<and> round_double (6 / 10) \<le> sc")
    case True
    then obtain sc where sc: "calculate_similarity nt (normalize_bone_name x) = Some sc"
      "bs < sc" "round_double (6 / 10) \<le> sc"
      by blast
    then have "sc < score"
      using Cons.prems(2) by simp
    then have "best_match_loop nt (Some x) sc (earlier @ s # later) = Some s"
      using Cons.prems(2) by (intro Cons.IH) simp_all
    then show ?thesis
      using sc by simp
  next
    case False
    have "best_match_loop nt bm bs (earlier @ s # later) = Some s"
      using Cons.prems by (intro Cons.IH) simp_all
    then show ?thesis
      using False by (auto split: option.splits)
  qed
qed

lemma find_best_match_iff:
  "find_best_match t srcs = Some s \<longleftrightarrow>
     (\<exists>score earlier later.
        srcs = earlier @ s # later
        \<and> calculate_similarity (normalize_bone_name t) (normalize_bone_name s) = Some score
        \<and> round_double (6 / 10) \<le> score
        \<and> (\<forall>x \<in> set earlier. \<forall>sc.
              calculate_similarity (normalize_bone_name t) (normalize_bone_name x) = Some sc
              \<longrightarrow> sc < score)
        \<and> (\<forall>x \<in> set later. \<forall>sc.
              calculate_similarity (normalize_bone_name t) (normalize_bone_name x) = Some sc
              \<longrightarrow> sc \<le> score))"
proof
  assume found: "find_best_match t srcs = Some s"
  then have "best_match_loop (normalize_bone_name t) None 0 srcs \<noteq> None"
    by (simp add: find_best_match_def)
  with best_match_loop_result [of "normalize_bone_name t" None 0 srcs] found
  show "\<exists>score earlier later.
        srcs = earlier @ s # later
        \<and> calculate_similarity (normalize_bone_name t) (normalize_bone_name s) = Some score
        \<and> round_double (6 / 10) \<le> score
        \<and> (\<forall>x \<in> set earlier. \<forall>sc.
              calculate_similarity (normalize_bone_name t) (normalize_bone_name x) = Some sc
              \<longrightarrow> sc < score)
        \<and> (\<forall>x \<in> set later. \<forall>sc.
              calculate_similarity (normalize_bone_name t) (normalize_bone_name x) = Some sc
              \<longrightarrow> sc \<le> score)"
    by (fastforce simp: find_best_match_def)
next
  assume "\<exists>score earlier later.
        srcs = earlier @ s # later
        \<and> calculate_similarity (normalize_bone_name t) (normalize_bone_name s) = Some score
        \<and> round_double (6 / 10) \<le> score
        \<and> (\<forall>x \<in> set earlier. \<forall>sc.
              calculate_similarity (normalize_bone_name t) (normalize_bone_name x) = Some sc
              \<longrightarrow> sc < score)
        \<and> (\<forall>x \<in> set later. \<forall>sc.
              calculate_similarity (normalize_bone_name t) (normalize_bone_name x) = Some sc
              \<longrightarrow> sc \<le> score)"
  then obtain score earlier later where srcs: "srcs = earlier @ s # later"
    and score: "calculate_similarity (normalize_bone_name t) (normalize_bone_name s) = Some score"
      "round_double (6 / 10) \<le> score"
    and earlier: "\<forall>x \<in> set earlier. \<forall>sc.
              calculate_similarity (normalize_bone_name t) (normalize_bone_name x) = Some sc
              \<longrightarrow> sc < score"
    and later: "\<forall>x \<in> set later. \<forall>sc.
              calculate_similarity (normalize_bone_name t) (normalize_bone_name x) = Some sc
              \<longrightarrow> sc \<le> score"
    by blast
  have "0 < score"
    using threshold_positive score(2) by simp
  then have "best_match_loop (normalize_bone_name t) None 0 (earlier @ s # later) = Some s"
    using score earlier later by (intro best_match_loop_first_best) simp_all
  then show "find_best_match t srcs = Some s"
    by (simp add: find_best_match_def srcs)
qed

lemma find_best_match_Some:
  assumes "find_best_match t srcs = Some s"
  shows "s \<in> set srcs"
    and "\<exists>score. calculate_similarity (normalize_bone_name t) (normalize_bone_name s) = Some score
           \<and> round_double (6 / 10) \<le> score"
  using assms unfolding find_best_match_iff by auto

lemma find_best_match_None:
  assumes "\<forall>s \<in> set srcs. \<forall>sc.
      calculate_similarity (normalize_bone_name t) (normalize_bone_name s) = Some sc
      \<longrightarrow> sc < round_double (6 / 10)"
  shows "find_best_match t srcs = None"
  unfolding find_best_match_def Let_def
  by (rule best_match_loop_unchanged) (use assms in force)

lemma auto_map_loop_distinct:
  "distinct (map fst m) \<Longrightarrow> distinct (map fst (auto_map_loop srcs m tgts))"
  by (induction tgts arbitrary: m) (auto split: option.splits simp: distinct_update)

lemma auto_map_loop_lookup:
  "map_of (auto_map_loop srcs m tgts) t
     = (if t \<in> set tgts \<and> find_best_match t srcs \<noteq> None then find_best_match t srcs else map_of m t)"
  by (induction tgts arbitrary: m) (auto split: option.splits simp: update_conv')

lemma auto_map_bones_entry:
  "(t, s) \<in> set (auto_map_bones srcs tgts) \<longleftrightarrow> t \<in> set tgts \<and> find_best_match t srcs = Some s"
proof -
  have "distinct (map fst (auto_map_bones srcs tgts))"
    by (simp add: auto_map_bones_def auto_map_loop_distinct)
  then have "(t, s) \<in> set (auto_map_bones srcs tgts) \<longleftrightarrow> map_of (auto_map_bones srcs tgts) t = Some s"
    by simp
  then show ?thesis
    by (auto simp: auto_map_bones_def auto_map_loop_lookup)
qed

lemma first_of_a_tie: "auto_map_bones [''Arm'', ''ARM''] [''arm''] = [(''arm'', ''Arm'')]"
  by code_simp

text \<open>The rounding decides which of two candidates is the greater: \<open>foot\<close> is contained in
  \<open>foot_bone\<close> and scores \<open>0.8 + (4 / 9) * 0.2\<close>, \<open>root_bone\<close> is one edit away and scores
  \<open>1 - 1 / 9\<close>; as numbers the first is the greater by one unit in the last place.\<close>

lemma rounding_breaks_a_tie:
  "find_best_match ''foot_bone'' [''root_bone'', ''foot''] = Some ''foot''"
  by code_simp

text \<open>
  C1. The mapping of \<^verbatim>\<open>auto_map_bones\<close> has the entry from a target \<open>t\<close> to a source \<open>s\<close>
  exactly when \<open>t\<close> is a target and \<open>s\<close> stands at a place of the source list where the
  score of the normalized pair is at least 0.6, every source before that place scores
  strictly less and every source behind it scores at most as much: a candidate replaces
  the best one so far only with a strictly greater score that reaches 0.6, so of equal
  scores the first stays (of \<open>Arm\<close> and \<open>ARM\<close> for the target \<open>arm\<close> it is \<open>Arm\<close>). Hence
  every entry has a score of at least 0.6, the number that the literal \<^verbatim>\<open>0.6\<close> denotes,
  and a target none of whose candidates reaches it is no key of the mapping.
\<close>

theorem accepted_entries_reach_threshold:
  "((t, s) \<in> set (auto_map_bones source_names target_names) \<longleftrightarrow>
      t \<in> set target_names
      \<and> (\<exists>score earlier later.
            source_names = earlier @ s # later
            \<and> calculate_similarity (normalize_bone_name t) (normalize_bone_name s) = Some score
            \<and> round_double (6 / 10) \<le> score
            \<and> (\<forall>s' \<in> set earlier. \<forall>score'.
                  calculate_similarity (normalize_bone_name t) (normalize_bone_name s') = Some score'
                  \<longrightarrow> score' < score)
            \<and> (\<forall>s' \<in> set later. \<forall>score'.
                  calculate_similarity (normalize_bone_name t) (normalize_bone_name s') = Some score'
                  \<longrightarrow> score' \<le> score)))
   \<and> ((t, s) \<in> set (auto_map_bones source_names target_names) \<longrightarrow>
        (\<exists>score. calculate_similarity (normalize_bone_name t) (normalize_bone_name s) = Some score
           \<and> round_double (6 / 10) \<le> score))
   \<and> ((\<forall>s' \<in> set source_names. \<forall>score'.
          calculate_similarity (normalize_bone_name t) (normalize_bone_name s') = Some score'
          \<longrightarrow> score' < round_double (6 / 10))
       \<longrightarrow> t \<notin> fst ` set (auto_map_bones source_names target_names))
   \<and> auto_map_bones [''Arm'', ''ARM''] [''arm''] = [(''arm'', ''Arm'')]"
proof (intro conjI impI)
  show "(t, s) \<in> set (auto_map_bones source_names target_names) \<longleftrightarrow>
      t \<in> set target_names
      \<and> (\<exists>score earlier later.
            source_names = earlier @ s # later
            \<and> calculate_similarity (normalize_bone_name t) (normalize_bone_name s) = Some score
            \<and> round_double (6 / 10) \<le> score
            \<and> (\<forall>s' \<in> set earlier. \<forall>score'.
                  calculate_similarity (normalize_bone_name t) (normalize_bone_name s') = Some score'
                  \<longrightarrow> score' < score)
            \<and> (\<forall>s' \<in> set later. \<forall>score'.
                  calculate_similarity (normalize_bone_name t) (normalize_bone_name s') = Some score'
                  \<longrightarrow> score' \<le> score))"
    unfolding auto_map_bones_entry find_best_match_iff ..
next
  assume "(t, s) \<in> set (auto_map_bones source_names target_names)"
  then have "find_best_match t source_names = Some s"
    by (simp add: auto_map_bones_entry)
  then show "\<exists>score. calculate_similarity (normalize_bone_name t) (normalize_bone_name s) = Some score
      \<and> round_double (6 / 10) \<le> score"
    by (rule find_best_match_Some)
next
  assume "\<forall>s' \<in> set source_names. \<forall>score'.
          calculate_similarity (normalize_bone_name t) (normalize_bone_name s') = Some score'
          \<longrightarrow> score' < round_double (6 / 10)"
  then have "find_best_match t source_names = None"
    by (rule find_best_match_None)
  then show "t \<notin> fst ` set (auto_map_bones source_names target_names)"
    by (auto simp: auto_map_bones_entry)
next
  show "auto_map_bones [''Arm'', ''ARM''] [''arm''] = [(''arm'', ''Arm'')]"
    by (rule first_of_a_tie)
qed

theorem accepted_entries_reach_threshold_witness:
  "(''hand_right'', ''Hand_R'')
     \<in> set (auto_map_bones [''Hand_L'', ''Hand_R''] [''hand_left'', ''hand_right''])
   \<and> (\<exists>score. calculate_similarity (normalize_bone_name ''hand_right'') (normalize_bone_name ''Hand_R'')
          = Some score \<and> round_double (6 / 10) \<le> score)
   \<and> ''Elbow'' \<notin> fst ` set (auto_map_bones [''Foot''] [''Elbow''])"
proof -
  have entry: "(''hand_right'', ''Hand_R'')
      \<in> set (auto_map_bones [''Hand_L'', ''Hand_R''] [''hand_left'', ''hand_right''])"
    by code_simp
  have "case calculate_similarity (normalize_bone_name ''Elbow'') (normalize_bone_name ''Foot'') of
      None \<Rightarrow> True | Some score \<Rightarrow> score < round_double (6 / 10)"
    by code_simp
  then have low: "\<forall>s' \<in> set [''Foot'']. \<forall>score'.
      calculate_similarity (normalize_bone_name ''Elbow'') (normalize_bone_name s') = Some score'
      \<longrightarrow> score' < round_double (6 / 10)"
    by (simp split: option.splits)
  note first = accepted_entries_reach_threshold [of "''hand_right''" "''Hand_R''"
      "[''Hand_L'', ''Hand_R'']" "[''hand_left'', ''hand_right'']"]
  note second = accepted_entries_reach_threshold [of "''Elbow''" "''Foot''" "[''Foot'']" "[''Elbow'']"]
  have "\<exists>score. calculate_similarity (normalize_bone_name ''hand_right'') (normalize_bone_name ''Hand_R'')
      = Some score \<and> round_double (6 / 10) \<le> score"
    using first [THEN conjunct2, THEN conjunct1] entry by (rule mp)
  moreover have "''Elbow'' \<notin> fst ` set (auto_map_bones [''Foot''] [''Elbow''])"
    using second [THEN conjunct2, THEN conjunct2, THEN conjunct1] low by (rule mp)
  ultimately show ?thesis
    using entry by (intro conjI)
qed

subsection \<open>A scenario of the generic mapper\<close>

text \<open>
  C6. For the sources \<open>Hand_L\<close>, \<open>Hand_R\<close> and the targets \<open>hand_left\<close>, \<open>hand_right\<close>
  the mapping has exactly the two entries \<open>hand_left\<close> to \<open>Hand_L\<close> and \<open>hand_right\<close> to
  \<open>Hand_R\<close>. The names of a pair have the same normal form and score 1 in the first
  tier; the names across the pairs score \<open>1 - 4 / 10\<close>, which as a number is the one the
  literal \<^verbatim>\<open>0.6\<close> denotes, and is less.
\<close>

theorem hand_pairs_are_mapped:
  "auto_map_bones [''Hand_L'', ''Hand_R''] [''hand_left'', ''hand_right'']
     = [(''hand_left'', ''Hand_L''), (''hand_right'', ''Hand_R'')]
   \<and> normalize_bone_name ''Hand_L'' = normalize_bone_name ''hand_left''
   \<and> normalize_bone_name ''Hand_R'' = normalize_bone_name ''hand_right''
   \<and> calculate_similarity (normalize_bone_name ''hand_left'') (normalize_bone_name ''Hand_L'')
       = Some 1
   \<and> calculate_similarity (normalize_bone_name ''hand_right'') (normalize_bone_name ''Hand_R'')
       = Some 1
   \<and> calculate_similarity (normalize_bone_name ''hand_left'') (normalize_bone_name ''Hand_R'')
       = Some (round_double (6 / 10))
   \<and> calculate_similarity (normalize_bone_name ''hand_right'') (normalize_bone_name ''Hand_L'')
       = Some (round_double (6 / 10))
   \<and> round_double (6 / 10) < 1"
  by code_simp

subsection \<open>The direct mapper\<close>

lemma BONE_MAP_keys_distinct: "distinct (map fst BONE_MAP)"
  by code_simp

lemma BONE_MAP_values_distinct: "distinct (map snd BONE_MAP)"
  by code_simp

lemma BONE_MAP_injective:
  assumes "map_of BONE_MAP s = Some t" and "map_of BONE_MAP s' = Some t"
  shows "s = s'"
proof -
  have "(s, t) \<in> set BONE_MAP" and "(s', t) \<in> set BONE_MAP"
    using assms by (auto dest: map_of_SomeD)
  moreover have "inj_on snd (set BONE_MAP)"
    using BONE_MAP_values_distinct by (simp add: distinct_map)
  ultimately have "(s, t) = (s', t)"
    using inj_onD [of snd "set BONE_MAP" "(s, t)" "(s', t)"] by simp
  then show ?thesis by simp
qed

lemma BONE_MAP_get_Str: "BONE_MAP_get k = Str v \<longleftrightarrow> map_of BONE_MAP k = Some v"
  by (auto simp: BONE_MAP_get_def split: option.splits)

lemma find_target_Some:
  assumes "find (\<lambda>tb. strict_equal (name tb) (BONE_MAP_get k)) tbs = Some tb"
  shows "expected_target tbs k (name tb)"
proof -
  from assms have "tb \<in> set tbs" and "strict_equal (name tb) (BONE_MAP_get k)"
    by (auto simp: find_Some_iff)
  then show ?thesis
    by (auto simp: expected_target_def strict_equal_def BONE_MAP_get_Str
        split: property_value.splits)
qed

lemma find_target_None:
  assumes "find (\<lambda>tb. strict_equal (name tb) (BONE_MAP_get k)) tbs = None"
  shows "\<not> expected_target tbs k t"
proof
  assume "expected_target tbs k t"
  then obtain tb where "tb \<in> set tbs" and "name tb = t" and "BONE_MAP_get k = Str t"
    by (auto simp: expected_target_def BONE_MAP_get_Str)
  then have "strict_equal (name tb) (BONE_MAP_get k)"
    by (simp add: strict_equal_def)
  with \<open>tb \<in> set tbs\<close> assms show False
    by (auto simp: find_None_iff)
qed

lemma undefined_no_target: "BONE_MAP_get k = Undefined \<Longrightarrow> \<not> expected_target tbs k t"
  by (auto simp: expected_target_def BONE_MAP_get_def split: option.splits)

lemma mixamo_loop_distinct:
  "distinct (map fst m) \<Longrightarrow> distinct (map fst (mixamo_loop tbs m sbs))"
  by (induction sbs arbitrary: m) (auto split: option.splits simp: distinct_update Let_def)

lemma mixamo_loop_lookup:
  assumes "\<And>t s. map_of m t = Some s \<Longrightarrow> map_of BONE_MAP s = Some t"
  shows "map_of (mixamo_loop tbs m sbs) t = Some s
     \<longleftrightarrow> map_of m t = Some s \<or> (s \<in> name ` set sbs \<and> expected_target tbs s t)"
  using assms
proof (induction sbs arbitrary: m)
  case Nil
  then show ?case by simp
next
  case (Cons sb rest)
  let ?found = "find (\<lambda>tb. strict_equal (name tb) (BONE_MAP_get (name sb))) tbs"
  show ?case
  proof (cases "BONE_MAP_get (name sb) \<noteq> Undefined \<and> ?found \<noteq> None")
    case True
    then obtain tb where found: "?found = Some tb"
      by blast
    have exp: "expected_target tbs (name sb) (name tb)"
      using found by (rule find_target_Some)
    let ?m' = "AList.update (name tb) (name sb) m"
    have step: "mixamo_loop tbs m (sb # rest) = mixamo_loop tbs ?m' rest"
      using True found by (simp add: Let_def)
    have inv: "\<And>t s. map_of ?m' t = Some s \<Longrightarrow> map_of BONE_MAP s = Some t"
      using Cons.prems exp by (auto simp: update_conv' expected_target_def split: if_splits)
    have "map_of (mixamo_loop tbs ?m' rest) t = Some s
       \<longleftrightarrow> map_of ?m' t = Some s \<or> (s \<in> name ` set rest \<and> expected_target tbs s t)"
      by (rule Cons.IH [OF inv])
    moreover have "map_of ?m' t = Some s
       \<longleftrightarrow> map_of m t = Some s \<or> (s = name sb \<and> expected_target tbs s t)"
    proof (cases "t = name tb")
      case True
      have old: "s = name sb" if "map_of m t = Some s"
      proof -
        from that have "map_of BONE_MAP s = Some (name tb)"
          using Cons.prems True by simp
        moreover have "map_of BONE_MAP (name sb) = Some (name tb)"
          using exp by (simp add: expected_target_def)
        ultimately show ?thesis
          by (rule BONE_MAP_injective)
      qed
      have "map_of ?m' t = Some s \<longleftrightarrow> s = name sb"
        using True by (auto simp: update_conv')
      moreover have "expected_target tbs (name sb) t"
        using exp True by simp
      ultimately show ?thesis
        using old by blast
    next
      case False
      then have "\<not> expected_target tbs (name sb) t"
        using exp by (simp add: expected_target_def)
      moreover have "map_of ?m' t = map_of m t"
        using False by (simp add: update_conv')
      ultimately show ?thesis
        by auto
    qed
    ultimately show ?thesis
      unfolding step by (simp only: list.set image_insert insert_iff) blast
  next
    case False
    then have step: "mixamo_loop tbs m (sb # rest) = mixamo_loop tbs m rest"
      by (auto simp: Let_def split: option.splits)
    have none: "\<not> expected_target tbs (name sb) t"
      using False find_target_None undefined_no_target by blast
    have "map_of (mixamo_loop tbs m rest) t = Some s
       \<longleftrightarrow> map_of m t = Some s \<or> (s \<in> name ` set rest \<and> expected_target tbs s t)"
      by (rule Cons.IH [OF Cons.prems])
    then show ?thesis
      unfolding step using none by auto
  qed
qed

lemma map_mixamo_bones_entry:
  "(t, s) \<in> set (map_mixamo_bones sbs tbs)
     \<longleftrightarrow> s \<in> name ` set sbs \<and> map_of BONE_MAP s = Some t \<and> t \<in> name ` set tbs"
proof -
  have "distinct (map fst (map_mixamo_bones sbs tbs))"
    by (simp add: map_mixamo_bones_def mixamo_loop_distinct)
  then have "(t, s) \<in> set (map_mixamo_bones sbs tbs) \<longleftrightarrow> map_of (map_mixamo_bones sbs tbs) t = Some s"
    by simp
  also have "\<dots> \<longleftrightarrow> s \<in> name ` set sbs \<and> expected_target tbs s t"
    unfolding map_mixamo_bones_def by (subst mixamo_loop_lookup) simp_all
  finally show ?thesis
    by (simp add: expected_target_def)
qed

lemma BONE_MAP_pelvis: "map_of BONE_MAP ''pelvis'' = Some ''mixamorigHips''"
  by code_simp

text \<open>
  C8. The mapping of \<^verbatim>\<open>map_mixamo_bones\<close> has the entry from \<open>t\<close> to \<open>s\<close> exactly when \<open>s\<close>
  is the name of a source bone and a key of the table, \<open>t\<close> is the name the table expects
  for it, and \<open>t\<close> is the name of a target bone. Every other source bone adds nothing,
  and no input is an error: the function is total. With a source bone \<open>pelvis\<close> and a
  target bone \<open>mixamorigHips\<close> the entry from \<open>mixamorigHips\<close> to \<open>pelvis\<close> is there;
  without a target bone \<open>mixamorigHips\<close> no entry has the value \<open>pelvis\<close>.
\<close>

theorem direct_map_entries:
  "((t, s) \<in> set (map_mixamo_bones source_bones target_bones)
      \<longleftrightarrow> s \<in> name ` set source_bones \<and> map_of BONE_MAP s = Some t
          \<and> t \<in> name ` set target_bones)
   \<and> (''pelvis'' \<in> name ` set source_bones \<and> ''mixamorigHips'' \<in> name ` set target_bones
        \<longrightarrow> (''mixamorigHips'', ''pelvis'') \<in> set (map_mixamo_bones source_bones target_bones))
   \<and> (''mixamorigHips'' \<notin> name ` set target_bones
        \<longrightarrow> ''pelvis'' \<notin> snd ` set (map_mixamo_bones source_bones target_bones))"
  using BONE_MAP_pelvis by (auto simp: map_mixamo_bones_entry)

theorem direct_map_entries_witness:
  "(''mixamorigHips'', ''pelvis'')
     \<in> set (map_mixamo_bones [\<lparr>name = ''pelvis''\<rparr>, \<lparr>name = ''tail''\<rparr>] [\<lparr>name = ''mixamorigHips''\<rparr>])
   \<and> ''pelvis'' \<notin> snd ` set (map_mixamo_bones [\<lparr>name = ''pelvis''\<rparr>] [\<lparr>name = ''mixamorigSpine''\<rparr>])"
proof -
  have "''pelvis'' \<in> name ` set [\<lparr>name = ''pelvis''\<rparr>, \<lparr>name = ''tail''\<rparr>]
      \<and> ''mixamorigHips'' \<in> name ` set [\<lparr>name = ''mixamorigHips''\<rparr>]"
    by simp
  moreover have "''mixamorigHips'' \<notin> name ` set [\<lparr>name = ''mixamorigSpine''\<rparr>]"
    by simp
  ultimately show ?thesis
    using direct_map_entries [of "''mixamorigHips''" "''pelvis''"
        "[\<lparr>name = ''pelvis''\<rparr>, \<lparr>name = ''tail''\<rparr>]" "[\<lparr>name = ''mixamorigHips''\<rparr>]"]
      direct_map_entries [of "''mixamorigHips''" "''pelvis''"
        "[\<lparr>name = ''pelvis''\<rparr>]" "[\<lparr>name = ''mixamorigSpine''\<rparr>]"]
    by blast
qed

subsection \<open>Soundness of both mappers\<close>

text \<open>
  C2. Every key of the mapping of either mapper is a name of the target collection and
  every value is a name of the source collection.
\<close>

theorem mapping_entries_come_from_inputs:
  "((t, s) \<in> set (auto_map_bones source_names target_names)
      \<longrightarrow> t \<in> set target_names \<and> s \<in> set source_names)
   \<and> ((t', s') \<in> set (map_mixamo_bones source_bones target_bones)
      \<longrightarrow> t' \<in> name ` set target_bones \<and> s' \<in> name ` set source_bones)"
  using find_best_match_Some(1) [of t source_names s]
  by (auto simp: auto_map_bones_entry map_mixamo_bones_entry)

theorem mapping_entries_come_from_inputs_witness:
  "(''hand_right'', ''Hand_R'') \<in> set (auto_map_bones [''Hand_L'', ''Hand_R''] [''hand_left'', ''hand_right''])
   \<and> ''hand_right'' \<in> set [''hand_left'', ''hand_right'']
   \<and> ''Hand_R'' \<in> set [''Hand_L'', ''Hand_R'']
   \<and> (''mixamorigHead'', ''head'')
        \<in> set (map_mixamo_bones [\<lparr>name = ''head''\<rparr>] [\<lparr>name = ''mixamorigHead''\<rparr>])
   \<and> ''mixamorigHead'' \<in> name ` set [\<lparr>name = ''mixamorigHead''\<rparr>]
   \<and> ''head'' \<in> name ` set [\<lparr>name = ''head''\<rparr>]"
proof -
  have a: "(''hand_right'', ''Hand_R'') \<in> set (auto_map_bones [''Hand_L'', ''Hand_R''] [''hand_left'', ''hand_right''])"
    by code_simp
  have b: "(''mixamorigHead'', ''head'')
        \<in> set (map_mixamo_bones [\<lparr>name = ''head''\<rparr>] [\<lparr>name = ''mixamorigHead''\<rparr>])"
    by code_simp
  show ?thesis
    using a b
      mapping_entries_come_from_inputs [of "''hand_right''" "''Hand_R''" "[''Hand_L'', ''Hand_R'']"
        "[''hand_left'', ''hand_right'']" "''mixamorigHead''" "''head''" "[\<lparr>name = ''head''\<rparr>]"
        "[\<lparr>name = ''mixamorigHead''\<rparr>]"]
    by blast
qed

section \<open>Normalizing twice\<close>

subsection \<open>Characters\<close>

lemma to_lower_char_idem: "to_lower_char (to_lower_char c) = to_lower_char c"
  by (auto simp: to_lower_char_def code_unit_def Let_def)

lemma settled_literals:
  "list_all settled ''left_''" "list_all settled ''right_''" "list_all settled ''_left''"
  "list_all settled ''_right''" "list_all settled ''l''" "list_all settled ''r''"
  by (simp_all add: settled_def to_lower_char_def is_separator_def is_space_char_def code_unit_def)

lemma settled_separators: "list_all settled (replace_separators (toLowerCase x))"
proof -
  have "settled CHR ''_''"
    by (simp add: settled_def to_lower_char_def is_separator_def is_space_char_def code_unit_def)
  then show ?thesis
    by (auto simp: list_all_iff replace_separators_def toLowerCase_def settled_def to_lower_char_idem)
qed

lemma settled_fixed:
  assumes "list_all settled s"
  shows "toLowerCase s = s" and "replace_separators s = s"
  using assms by (simp_all add: list_all_iff toLowerCase_def replace_separators_def settled_def map_idI)

subsection \<open>Whole-word scan\<close>

lemma next_is_word_append:
  "list_all is_word_char u \<Longrightarrow> \<not> next_is_word v \<Longrightarrow> next_is_word (u @ v) \<longleftrightarrow> u \<noteq> []"
  by (cases u) (simp_all add: next_is_word_def)

lemma word_run_eq:
  assumes "list_all is_word_char u" and "list_all is_word_char w" and "\<not> next_is_word v"
  shows "starts_with (u @ v) w \<and> \<not> next_is_word (drop (length w) (u @ v)) \<longleftrightarrow> u = w"
  using assms
proof (induction u w rule: list_induct2')
  case 1
  then show ?case by simp
next
  case (2 x xs)
  then show ?case by (simp add: next_is_word_def)
next
  case (3 y ys)
  then show ?case
    by (cases v) (auto simp: next_is_word_def)
next
  case (4 x xs y ys)
  then show ?case by auto
qed

lemma match_here_word:
  assumes "is_word w"
  shows "match_here w prev s \<longleftrightarrow> \<not> prev \<and> starts_with s w \<and> \<not> next_is_word (drop (length w) s)"
proof -
  obtain a w' where w: "w = a # w'" and a: "is_word_char a"
    using assms by (cases w) (auto simp: is_word_def)
  have last: "is_word_char (last w)"
    using assms by (auto simp: is_word_def list_all_iff)
  have "starts_with s w \<Longrightarrow> next_is_word s"
    using a unfolding w by (cases s) (auto simp: next_is_word_def)
  then show ?thesis
    using assms last by (auto simp: match_here_def word_boundary_def is_word_def)
qed

lemma no_match_after_word_char [simp]: "is_word w \<Longrightarrow> \<not> match_here w True s"
  by (simp add: match_here_word)

lemma no_match_at_other_char:
  assumes "is_word w" and "\<not> is_word_char c"
  shows "\<not> match_here w prev (c # cs)"
proof -
  obtain a w' where "w = a # w'" and "is_word_char a"
    using assms(1) by (cases w) (auto simp: is_word_def)
  then show ?thesis
    using assms by (auto simp: match_here_word)
qed

lemma match_here_word_run:
  assumes "is_word w" and "list_all is_word_char u" and "\<not> next_is_word v"
  shows "match_here w False (u @ v) \<longleftrightarrow> u = w"
  using word_run_eq [OF assms(2) _ assms(3), of w] assms(1)
  by (simp add: match_here_word is_word_def)

text \<open>Copying through a run of word characters.\<close>

lemma replace_copy_run:
  assumes "is_word w" and "list_all is_word_char u"
  shows "replace_whole_word w r True (u @ v) = u @ replace_whole_word w r True v"
  using assms by (induction u) simp_all

lemma has_match_copy_run:
  assumes "is_word w" and "list_all is_word_char u"
  shows "has_match w True (u @ v) = has_match w True v"
  using assms by (induction u) simp_all

lemma replace_other_char:
  assumes "is_word w" and "\<not> is_word_char c"
  shows "replace_whole_word w r prev (c # cs) = c # replace_whole_word w r False cs"
  using assms by (simp add: no_match_at_other_char)

lemma has_match_other_char:
  assumes "is_word w" and "\<not> is_word_char c"
  shows "has_match w prev (c # cs) = has_match w False cs"
  using assms by (simp add: no_match_at_other_char)

lemma replace_prev_irrelevant:
  assumes "is_word w" and "\<not> next_is_word v"
  shows "replace_whole_word w r True v = replace_whole_word w r False v"
  using assms by (cases v) (simp_all add: next_is_word_def no_match_at_other_char)

lemma has_match_prev_irrelevant:
  assumes "is_word w" and "\<not> next_is_word v"
  shows "has_match w True v = has_match w False v"
  using assms by (cases v) (simp_all add: next_is_word_def no_match_at_other_char)

lemma replace_keeps_break:
  assumes "is_word w" and "\<not> next_is_word v"
  shows "\<not> next_is_word (replace_whole_word w r prev v)"
  using assms by (cases v) (simp_all add: next_is_word_def no_match_at_other_char)

lemma replace_word_run:
  assumes "is_word w" and "list_all is_word_char u" and "\<not> next_is_word v"
  shows "replace_whole_word w r False (u @ v)
     = (if u = w then r else u) @ replace_whole_word w r False v"
proof (cases u)
  case Nil
  then show ?thesis
    using assms by (auto simp: is_word_def)
next
  case (Cons c u')
  have c: "is_word_char c" and u': "list_all is_word_char u'"
    using assms(2) Cons by simp_all
  have m: "match_here w False (c # u' @ v) \<longleftrightarrow> u = w"
    using match_here_word_run [OF assms] Cons by simp
  have last: "is_word_char (last w)"
    using assms(1) by (auto simp: is_word_def list_all_iff)
  show ?thesis
  proof (cases "u = w")
    case True
    then have w: "w = c # u'"
      using Cons by simp
    have "match_here w False (c # u' @ v)"
      using m True by simp
    then have step: "replace_whole_word w r False (c # u' @ v)
        = r @ replace_whole_word w r (is_word_char (last w)) (drop (length w - 1) (u' @ v))"
      by simp
    have rest: "drop (length w - 1) (u' @ v) = v"
      unfolding w by simp
    have "replace_whole_word w r False (u @ v) = r @ replace_whole_word w r True v"
      unfolding Cons using step rest last by simp
    then show ?thesis
      using True replace_prev_irrelevant [OF assms(1,3)] by simp
  next
    case False
    then have "\<not> match_here w False (c # u' @ v)"
      using m by simp
    then have "replace_whole_word w r False (c # u' @ v)
        = c # replace_whole_word w r True (u' @ v)"
      using c by simp
    then show ?thesis
      using False Cons replace_copy_run [OF assms(1) u'] replace_prev_irrelevant [OF assms(1,3)]
      by simp
  qed
qed

lemma has_match_word_run:
  assumes "is_word w" and "list_all is_word_char u" and "\<not> next_is_word v"
  shows "has_match w False (u @ v) \<longleftrightarrow> u = w \<or> has_match w False v"
proof (cases u)
  case Nil
  then show ?thesis
    using assms by (auto simp: is_word_def)
next
  case (Cons c u')
  have c: "is_word_char c" and u': "list_all is_word_char u'"
    using assms(2) Cons by simp_all
  have m: "match_here w False (c # u' @ v) \<longleftrightarrow> u = w"
    using match_here_word_run [OF assms] Cons by simp
  show ?thesis
    using m Cons c has_match_copy_run [OF assms(1) u'] has_match_prev_irrelevant [OF assms(1,3)]
    by simp
qed

lemma no_match_unchanged: "\<not> has_match w prev s \<Longrightarrow> replace_whole_word w r prev s = s"
  by (induction s arbitrary: prev) simp_all

text \<open>Induction over a string by its runs of word characters.\<close>

lemma word_run_induct [case_names Nil Other Run]:
  assumes "P []"
    and "\<And>c cs. \<not> is_word_char c \<Longrightarrow> P cs \<Longrightarrow> P (c # cs)"
    and "\<And>u v. u \<noteq> [] \<Longrightarrow> list_all is_word_char u \<Longrightarrow> \<not> next_is_word v \<Longrightarrow> P v \<Longrightarrow> P (u @ v)"
  shows "P s"
proof (induction "length s" arbitrary: s rule: less_induct)
  case less
  show ?case
  proof (cases s)
    case Nil
    then show ?thesis using assms(1) by simp
  next
    case (Cons c cs)
    show ?thesis
    proof (cases "is_word_char c")
      case False
      then show ?thesis
        using assms(2) less Cons by simp
    next
      case True
      let ?u = "takeWhile is_word_char s" and ?v = "dropWhile is_word_char s"
      have "?u \<noteq> []"
        using True Cons by simp
      moreover have "list_all is_word_char ?u"
        by (auto simp: list_all_iff dest: set_takeWhileD)
      moreover have "\<not> next_is_word ?v"
      proof (cases ?v)
        case Nil
        show ?thesis
          unfolding Nil by (simp add: next_is_word_def)
      next
        case (Cons d ds)
        then have "?v \<noteq> []" by simp
        then have "\<not> is_word_char (hd ?v)"
          by (rule hd_dropWhile)
        then show ?thesis
          unfolding Cons by (simp add: next_is_word_def)
      qed
      moreover have "length ?v < length s"
        using True Cons by (simp add: length_dropWhile_le le_imp_less_Suc)
      then have "P ?v"
        by (rule less)
      ultimately have "P (?u @ ?v)"
        by (rule assms(3))
      then show ?thesis by simp
    qed
  qed
qed

lemma replace_leaves_no_match:
  assumes w1: "is_word w1" and w2: "is_word w2" and r2: "list_all is_word_char r2"
    and "r2 \<noteq> w1"
    and "w1 = w2 \<or> \<not> has_match w1 False s"
  shows "\<not> has_match w1 False (replace_whole_word w2 r2 False s)"
  using assms(5)
proof (induction s rule: word_run_induct)
  case Nil
  show ?case by simp
next
  case (Other c cs)
  have "replace_whole_word w2 r2 False (c # cs) = c # replace_whole_word w2 r2 False cs"
    using w2 Other.hyps by (rule replace_other_char)
  moreover have "has_match w1 False (c # x) = has_match w1 False x" for x
    using w1 Other.hyps by (rule has_match_other_char)
  ultimately show ?case
    using Other.IH Other.prems by (simp del: has_match.simps replace_whole_word.simps)
next
  case (Run u v)
  let ?u' = "if u = w2 then r2 else u"
  let ?v' = "replace_whole_word w2 r2 False v"
  have out: "replace_whole_word w2 r2 False (u @ v) = ?u' @ ?v'"
    using w2 Run.hyps(2,3) by (rule replace_word_run)
  have u': "list_all is_word_char ?u'"
    using r2 Run.hyps(2) by simp
  have v': "\<not> next_is_word ?v'"
    using w2 Run.hyps(3) by (rule replace_keeps_break)
  have split: "has_match w1 False (u @ v) \<longleftrightarrow> u = w1 \<or> has_match w1 False v"
    using w1 Run.hyps(2,3) by (rule has_match_word_run)
  have "?u' \<noteq> w1"
    using assms(4) Run.prems split by auto
  moreover have "\<not> has_match w1 False ?v'"
    using Run.IH Run.prems split by auto
  ultimately show ?case
    unfolding out using has_match_word_run [OF w1 u' v'] by simp
qed

text \<open>The anchored replacements, where the pattern and the replacement hold an underscore
  and the word does not.\<close>

lemma has_match_leading:
  assumes w: "is_word w" and "CHR ''_'' \<notin> set w"
    and p: "list_all is_word_char p" "CHR ''_'' \<in> set p"
    and r: "list_all is_word_char r" "CHR ''_'' \<in> set r"
  shows "has_match w False (r @ t) = has_match w False (p @ t)"
proof -
  let ?u = "takeWhile is_word_char t" and ?v = "dropWhile is_word_char t"
  have u: "list_all is_word_char ?u"
    by (auto simp: list_all_iff dest: set_takeWhileD)
  have v: "\<not> next_is_word ?v"
  proof (cases ?v)
    case Nil
    show ?thesis
      unfolding Nil by (simp add: next_is_word_def)
  next
    case (Cons d ds)
    then have "?v \<noteq> []" by simp
    then have "\<not> is_word_char (hd ?v)"
      by (rule hd_dropWhile)
    then show ?thesis
      unfolding Cons by (simp add: next_is_word_def)
  qed
  have "has_match w False ((x @ ?u) @ ?v) \<longleftrightarrow> has_match w False ?v"
    if "list_all is_word_char x" and "CHR ''_'' \<in> set x" for x
  proof -
    have "x @ ?u \<noteq> w"
      using that(2) assms(2) by auto
    moreover have "list_all is_word_char (x @ ?u)"
      using that(1) u by simp
    ultimately show ?thesis
      using has_match_word_run [OF w _ v, of "x @ ?u"] by simp
  qed
  from this [OF p] this [OF r] show ?thesis
    by simp
qed

lemma has_match_replace_leading:
  assumes "is_word w" and "CHR ''_'' \<notin> set w"
    and "list_all is_word_char p" "CHR ''_'' \<in> set p"
    and "list_all is_word_char r" "CHR ''_'' \<in> set r"
  shows "has_match w False (replace_leading p r s) = has_match w False s"
proof (cases "starts_with s p")
  case True
  then obtain t where "s = p @ t"
    using starts_with_append_iff by blast
  then show ?thesis
    using True has_match_leading [OF assms, of t] by (simp add: replace_leading_def)
next
  case False
  then show ?thesis by (simp add: replace_leading_def)
qed

lemma has_match_before_underscore_word:
  assumes w: "is_word w" and "CHR ''_'' \<notin> set w"
    and p: "list_all is_word_char p" "CHR ''_'' \<in> set p"
    and r: "list_all is_word_char r" "CHR ''_'' \<in> set r"
  shows "has_match w False (t @ r) = has_match w False (t @ p)"
proof (induction t rule: word_run_induct)
  case Nil
  have "has_match w False (x @ []) = False" if "list_all is_word_char x" and "CHR ''_'' \<in> set x" for x
  proof -
    have "x \<noteq> w" using that(2) assms(2) by auto
    then show ?thesis
      using has_match_word_run [OF w that(1), of "[]"] by (simp add: next_is_word_def)
  qed
  from this [OF p] this [OF r] show ?case by simp
next
  case (Other c cs)
  have "has_match w False (c # x) = has_match w False x" for x
    using w Other.hyps by (rule has_match_other_char)
  then show ?case
    using Other.IH by (simp del: has_match.simps)
next
  case (Run u v)
  show ?case
  proof (cases v)
    case Nil
    have "has_match w False ((u @ x) @ []) = False"
      if "list_all is_word_char x" and "CHR ''_'' \<in> set x" for x
    proof -
      have "u @ x \<noteq> w" using that(2) assms(2) by auto
      moreover have "list_all is_word_char (u @ x)"
        using that(1) Run.hyps(2) by simp
      ultimately show ?thesis
        using has_match_word_run [OF w _ _, of "u @ x" "[]"] by (simp add: next_is_word_def)
    qed
    from this [OF p] this [OF r] show ?thesis
      unfolding Nil by simp
  next
    case (Cons d ds)
    then have "\<not> next_is_word (v @ x)" for x
      using Run.hyps(3) by (simp add: next_is_word_def)
    then have "has_match w False (u @ (v @ x)) \<longleftrightarrow> u = w \<or> has_match w False (v @ x)" for x
      using has_match_word_run [OF w Run.hyps(2)] by blast
    then show ?thesis
      using Run.IH by simp
  qed
qed

lemma has_match_replace_trailing:
  assumes "is_word w" and "CHR ''_'' \<notin> set w"
    and "list_all is_word_char p" "CHR ''_'' \<in> set p"
    and "list_all is_word_char r" "CHR ''_'' \<in> set r"
  shows "has_match w False (replace_trailing p r s) = has_match w False s"
proof (cases "ends_with s p")
  case True
  then have "s = take (length s - length p) s @ p"
    unfolding ends_with_def by (metis append_take_drop_id)
  then show ?thesis
    using True has_match_before_underscore_word [OF assms, of "take (length s - length p) s"]
    by (simp add: replace_trailing_def)
next
  case False
  then show ?thesis by (simp add: replace_trailing_def)
qed

subsection \<open>Characters of the result\<close>

lemma set_replace_whole_word: "set (replace_whole_word w r prev s) \<subseteq> set r \<union> set s"
proof (induction w r prev s rule: replace_whole_word.induct)
  case (1 w r prev)
  show ?case by simp
next
  case (2 w r prev c cs)
  show ?case
  proof (cases "match_here w prev (c # cs)")
    case True
    then show ?thesis
      using "2.IH"(1) set_drop_subset [of "length w - 1" cs] by auto
  next
    case False
    then show ?thesis
      using "2.IH"(2) by auto
  qed
qed

lemma settled_replace_whole_word:
  "list_all settled r \<Longrightarrow> list_all settled s \<Longrightarrow> list_all settled (replace_whole_word w r prev s)"
  using set_replace_whole_word [of w r prev s] by (auto simp: list_all_iff)

lemma settled_strip_prefix: "list_all settled s \<Longrightarrow> list_all settled (strip_prefix s)"
  by (auto simp: strip_prefix_def list_all_iff split: option.splits dest: in_set_dropD)

lemma settled_replace_leading:
  "list_all settled r \<Longrightarrow> list_all settled s \<Longrightarrow> list_all settled (replace_leading p r s)"
  by (auto simp: replace_leading_def list_all_iff dest: in_set_dropD)

lemma settled_replace_trailing:
  "list_all settled r \<Longrightarrow> list_all settled s \<Longrightarrow> list_all settled (replace_trailing p r s)"
  by (auto simp: replace_trailing_def list_all_iff dest: in_set_takeD)

subsection \<open>The side markers of the result\<close>

lemma starts_with_two_before_underscore:
  assumes "c1 \<noteq> CHR ''_''"
  shows "starts_with (t @ CHR ''_'' # a) [c1, c2] = starts_with (t @ CHR ''_'' # b) [c1, c2]"
proof (cases t)
  case Nil
  then show ?thesis using assms by auto
next
  case (Cons x t')
  then show ?thesis by (cases t') auto
qed

lemma replace_trailing_keeps_start:
  assumes "c1 \<noteq> CHR ''_''" and "\<not> starts_with s [c1, c2]"
  shows "\<not> starts_with (replace_trailing (CHR ''_'' # a) (CHR ''_'' # b) s) [c1, c2]"
proof (cases "ends_with s (CHR ''_'' # a)")
  case True
  let ?t = "take (length s - length (CHR ''_'' # a)) s"
  have "s = ?t @ CHR ''_'' # a"
    using True unfolding ends_with_def by (metis append_take_drop_id)
  then have "\<not> starts_with (?t @ CHR ''_'' # a) [c1, c2]"
    using assms(2) by simp
  then have "\<not> starts_with (?t @ CHR ''_'' # b) [c1, c2]"
    using starts_with_two_before_underscore [OF assms(1)] by blast
  then show ?thesis
    using True by (simp add: replace_trailing_def)
next
  case False
  then show ?thesis
    using assms(2) by (simp add: replace_trailing_def)
qed

lemma leading_markers_gone:
  fixes s :: string
  defines "s' \<equiv> replace_leading ''r_'' ''right_'' (replace_leading ''l_'' ''left_'' s)"
  shows "\<not> starts_with s' ''l_''" and "\<not> starts_with s' ''r_''"
  unfolding s'_def replace_leading_def by (auto simp: starts_with_append_iff)

lemma ends_with_append:
  assumes "length q \<le> length p"
  shows "ends_with (t @ p) q \<longleftrightarrow> drop (length p - length q) p = q"
proof -
  have "length (t @ p) - length q = length t + (length p - length q)"
    using assms by simp
  then have "drop (length (t @ p) - length q) (t @ p) = drop (length p - length q) p"
    by simp
  then show ?thesis
    using assms by (simp add: ends_with_def)
qed

lemma trailing_markers_gone:
  fixes s :: string
  defines "s' \<equiv> replace_trailing ''_r'' ''_right'' (replace_trailing ''_l'' ''_left'' s)"
  shows "\<not> ends_with s' ''_l''" and "\<not> ends_with s' ''_r''"
proof -
  let ?m = "replace_trailing ''_l'' ''_left'' s"
  have "\<not> ends_with (t @ ''_left'') ''_l''" for t :: string
    by (subst ends_with_append) simp_all
  then have m: "\<not> ends_with ?m ''_l''"
    by (simp add: replace_trailing_def)
  have l: "\<not> ends_with (t @ ''_right'') ''_l''" for t :: string
    by (subst ends_with_append) simp_all
  have r: "\<not> ends_with (t @ ''_right'') ''_r''" for t :: string
    by (subst ends_with_append) simp_all
  show "\<not> ends_with s' ''_l''"
    unfolding s'_def using m l by (simp add: replace_trailing_def)
  show "\<not> ends_with s' ''_r''"
    unfolding s'_def using r by (simp add: replace_trailing_def)
qed

subsection \<open>The facts about a normalized name\<close>

lemma word_literals:
  "is_word ''left''" "is_word ''right''"
  "list_all is_word_char ''l''" "list_all is_word_char ''r''"
  "list_all is_word_char ''l_''" "list_all is_word_char ''r_''"
  "list_all is_word_char ''_l''" "list_all is_word_char ''_r''"
  "list_all is_word_char ''left_''" "list_all is_word_char ''right_''"
  "list_all is_word_char ''_left''" "list_all is_word_char ''_right''"
  by (simp_all add: is_word_def is_word_char_def code_unit_def)

lemma normalized_facts:
  fixes x :: string
  defines "y \<equiv> normalize_bone_name x"
  shows "list_all settled y"
    and "\<not> has_match ''left'' False y"
    and "\<not> has_match ''right'' False y"
    and "\<not> starts_with y ''l_''"
    and "\<not> starts_with y ''r_''"
    and "\<not> ends_with y ''_l''"
    and "\<not> ends_with y ''_r''"
proof -
  let ?s3 = "strip_prefix (replace_separators (toLowerCase x))"
  let ?s4 = "replace_whole_word ''left'' ''l'' False ?s3"
  let ?s5 = "replace_whole_word ''right'' ''r'' False ?s4"
  let ?s7 = "replace_leading ''r_'' ''right_'' (replace_leading ''l_'' ''left_'' ?s5)"
  have y: "y = replace_trailing ''_r'' ''_right'' (replace_trailing ''_l'' ''_left'' ?s7)"
    by (simp add: y_def normalize_bone_name_def)
  show "list_all settled y"
    unfolding y
    by (intro settled_replace_trailing settled_replace_leading settled_replace_whole_word
        settled_strip_prefix settled_separators settled_literals)
  have l4: "\<not> has_match ''left'' False ?s4"
    by (rule replace_leaves_no_match [OF word_literals(1) word_literals(1) word_literals(3)])
      simp_all
  have l5: "\<not> has_match ''left'' False ?s5"
    using l4
    by (intro replace_leaves_no_match [OF word_literals(1) word_literals(2) word_literals(4)])
      simp_all
  have r5: "\<not> has_match ''right'' False ?s5"
    by (rule replace_leaves_no_match [OF word_literals(2) word_literals(2) word_literals(4)])
      simp_all
  have keep: "has_match w False y = has_match w False ?s5"
    if w: "is_word w" "CHR ''_'' \<notin> set w" for w
  proof -
    have "has_match w False y
        = has_match w False (replace_trailing ''_l'' ''_left'' ?s7)"
      unfolding y by (rule has_match_replace_trailing [OF w word_literals(8) _ word_literals(12)]) simp_all
    also have "\<dots> = has_match w False ?s7"
      by (rule has_match_replace_trailing [OF w word_literals(7) _ word_literals(11)]) simp_all
    also have "\<dots> = has_match w False (replace_leading ''l_'' ''left_'' ?s5)"
      by (rule has_match_replace_leading [OF w word_literals(6) _ word_literals(10)]) simp_all
    also have "\<dots> = has_match w False ?s5"
      by (rule has_match_replace_leading [OF w word_literals(5) _ word_literals(9)]) simp_all
    finally show ?thesis .
  qed
  show "\<not> has_match ''left'' False y"
    using l5 keep [of "''left''"] by (simp add: word_literals)
  show "\<not> has_match ''right'' False y"
    using r5 keep [of "''right''"] by (simp add: word_literals)
  have "\<not> starts_with ?s7 ''l_''" and "\<not> starts_with ?s7 ''r_''"
    by (rule leading_markers_gone)+
  then show "\<not> starts_with y ''l_''" and "\<not> starts_with y ''r_''"
    unfolding y by (simp_all add: replace_trailing_keeps_start)
  show "\<not> ends_with y ''_l''" and "\<not> ends_with y ''_r''"
    unfolding y by (rule trailing_markers_gone)+
qed

lemma no_second_prefix_fixed:
  assumes "matched_prefix (normalize_bone_name x) = None"
  shows "normalize_bone_name (normalize_bone_name x) = normalize_bone_name x"
proof -
  let ?y = "normalize_bone_name x"
  note f = normalized_facts [of x]
  have "toLowerCase ?y = ?y" and "replace_separators ?y = ?y"
    using f(1) by (rule settled_fixed)+
  moreover have "strip_prefix ?y = ?y"
    using assms by (simp add: strip_prefix_def)
  moreover have "replace_whole_word ''left'' ''l'' False ?y = ?y"
    using f(2) by (rule no_match_unchanged)
  moreover have "replace_whole_word ''right'' ''r'' False ?y = ?y"
    using f(3) by (rule no_match_unchanged)
  moreover have "replace_leading ''l_'' ''left_'' ?y = ?y" and "replace_leading ''r_'' ''right_'' ?y = ?y"
    using f(4,5) by (simp_all add: replace_leading_def)
  moreover have "replace_trailing ''_l'' ''_left'' ?y = ?y" and "replace_trailing ''_r'' ''_right'' ?y = ?y"
    using f(6,7) by (simp_all add: replace_trailing_def)
  ultimately show ?thesis
    by (subst (1) normalize_bone_name_def) (simp only: Let_def)
qed

subsection \<open>Characters that no replacement touches\<close>

lemma count_replace_whole_word:
  assumes "count_list w c = count_list r c"
  shows "count_list (replace_whole_word w r prev s) c = count_list s c"
  using assms
proof (induction w r prev s rule: replace_whole_word.induct)
  case (1 w r prev)
  show ?case by simp
next
  case (2 w r prev d ds)
  show ?case
  proof (cases "match_here w prev (d # ds)")
    case True
    then have "w \<noteq> []" and "starts_with (d # ds) w"
      by (simp_all add: match_here_def)
    then obtain rest where rest: "d # ds = w @ rest"
      using starts_with_append_iff by blast
    then have "drop (length w - 1) ds = rest"
      using \<open>w \<noteq> []\<close> by (cases w) auto
    then have "replace_whole_word w r prev (d # ds)
        = r @ replace_whole_word w r (is_word_char (last w)) rest"
      using True by simp
    then have "count_list (replace_whole_word w r prev (d # ds)) c
        = count_list r c + count_list rest c"
      using True "2.IH"(1) "2.prems" \<open>drop (length w - 1) ds = rest\<close> by simp
    also have "\<dots> = count_list (w @ rest) c"
      by (simp add: "2.prems")
    finally show ?thesis
      unfolding rest .
  next
    case False
    then show ?thesis
      using "2.IH"(2) "2.prems" by auto
  qed
qed

lemma count_replace_leading:
  assumes "count_list p c = count_list r c"
  shows "count_list (replace_leading p r s) c = count_list s c"
proof (cases "starts_with s p")
  case True
  then obtain t where "s = p @ t"
    using starts_with_append_iff by blast
  then show ?thesis
    using True assms by (simp add: replace_leading_def)
next
  case False
  then show ?thesis by (simp add: replace_leading_def)
qed

lemma count_replace_trailing:
  assumes "count_list p c = count_list r c"
  shows "count_list (replace_trailing p r s) c = count_list s c"
proof (cases "ends_with s p")
  case True
  let ?t = "take (length s - length p) s"
  have "s = ?t @ p"
    using True unfolding ends_with_def by (metis append_take_drop_id)
  then have "count_list s c = count_list ?t c + count_list p c"
    by (metis count_list_append)
  then show ?thesis
    using True assms by (simp add: replace_trailing_def)
next
  case False
  then show ?thesis by (simp add: replace_trailing_def)
qed

lemma untouched_counts:
  assumes "untouched c"
  shows "count_list ''left'' c = count_list ''l'' c"
    and "count_list ''right'' c = count_list ''r'' c"
    and "count_list ''l_'' c = count_list ''left_'' c"
    and "count_list ''r_'' c = count_list ''right_'' c"
    and "count_list ''_l'' c = count_list ''_left'' c"
    and "count_list ''_r'' c = count_list ''_right'' c"
  using assms by (auto simp: untouched_def)

lemma count_normalize:
  assumes "untouched c"
  shows "count_list (normalize_bone_name x) c
     = count_list (strip_prefix (replace_separators (toLowerCase x))) c"
  unfolding normalize_bone_name_def Let_def
  by (simp only: count_replace_whole_word count_replace_leading count_replace_trailing
      untouched_counts [OF assms])

lemma untouched_m_underscore: "untouched CHR ''m''" "untouched CHR ''_''"
  by (simp_all add: untouched_def)

lemma rig_prefix_cases:
  assumes "p \<in> set rig_prefixes"
  shows "p = ''mixamorig'' \<or> p = ''mixamorig_'' \<or> p = ''rig_'' \<or> p = ''bone_''
    \<or> p = ''jnt_'' \<or> p = ''joint_''"
  using assms by (simp add: rig_prefixes_def)

lemma rig_prefix_untouched_char:
  assumes "p \<in> set rig_prefixes"
  shows "\<exists>c \<in> set p. untouched c"
proof -
  have "CHR ''m'' \<in> set p \<or> CHR ''_'' \<in> set p"
    using rig_prefix_cases [OF assms] by (elim disjE) simp_all
  then show ?thesis
    using untouched_m_underscore by blast
qed

lemma rig_prefixes_lower:
  assumes "p \<in> set rig_prefixes"
  shows "map to_lower_char p = p"
  using rig_prefix_cases [OF assms]
  by (elim disjE) (simp_all add: to_lower_char_def code_unit_def)

lemma second_prefix_changes:
  assumes "matched_prefix (normalize_bone_name x) = Some p"
  shows "normalize_bone_name (normalize_bone_name x) \<noteq> normalize_bone_name x"
proof -
  let ?y = "normalize_bone_name x"
  have settled: "list_all settled ?y"
    by (rule normalized_facts)
  then have lower: "toLowerCase ?y = ?y" and sep: "replace_separators ?y = ?y"
    by (rule settled_fixed)+
  have p: "p \<in> set rig_prefixes" and "matches_ignore_case ?y p"
    using assms unfolding matched_prefix_def by (auto simp: find_Some_iff)
  then have "starts_with ?y p"
    using lower rig_prefixes_lower [OF p] by (simp add: matches_ignore_case_def toLowerCase_def)
  then obtain z where y: "?y = p @ z"
    using starts_with_append_iff by blast
  have "strip_prefix ?y = drop (length p) ?y"
    using assms by (simp add: strip_prefix_def)
  also have "\<dots> = z"
    by (subst y) simp
  finally have strip: "strip_prefix ?y = z" .
  obtain c where c: "c \<in> set p" "untouched c"
    using rig_prefix_untouched_char [OF p] by blast
  have "count_list (normalize_bone_name ?y) c
      = count_list (strip_prefix (replace_separators (toLowerCase ?y))) c"
    using c(2) by (rule count_normalize)
  then have again: "count_list (normalize_bone_name ?y) c = count_list z c"
    by (simp only: lower sep strip)
  have "count_list (p @ z) c = count_list p c + count_list z c"
    by simp
  then have once: "count_list ?y c = count_list p c + count_list z c"
    by (simp only: y [symmetric])
  have pos: "0 < count_list p c"
    using c(1) count_list_0_iff [of p c] by simp
  show ?thesis
  proof
    assume "normalize_bone_name ?y = ?y"
    then have "count_list ?y c = count_list z c"
      using again by (simp only:)
    then show False
      using once pos by simp
  qed
qed

subsection \<open>Idempotence\<close>

text \<open>
  C4, as the specification states it: normalizing a normalized name changes nothing. It
  fails for \<open>rig_bone_arm\<close>: the first pass removes \<open>rig_\<close> and leaves \<open>bone_arm\<close>, the
  second removes \<open>bone_\<close>.
\<close>

theorem normalize_not_idempotent:
  "normalize_bone_name (normalize_bone_name ''rig_bone_arm'') \<noteq> normalize_bone_name ''rig_bone_arm''"
  by code_simp

text \<open>
  C4, amended: normalizing a normalized name changes nothing exactly when the normalized
  name does not begin with one of the rig prefixes again. The prefix step removes one
  leading prefix, and every other step is idempotent.
\<close>

theorem normalize_idempotent_iff:
  "normalize_bone_name (normalize_bone_name x) = normalize_bone_name x
     \<longleftrightarrow> matched_prefix (normalize_bone_name x) = None"
proof (cases "matched_prefix (normalize_bone_name x)")
  case None
  then show ?thesis
    using no_second_prefix_fixed [of x] by simp
next
  case (Some p)
  then show ?thesis
    using second_prefix_changes [of x p] by simp
qed

theorem normalize_idempotent_iff_witness:
  "matched_prefix (normalize_bone_name ''Left Arm'') = None
   \<and> normalize_bone_name (normalize_bone_name ''Left Arm'') = normalize_bone_name ''Left Arm''"
proof -
  have h: "matched_prefix (normalize_bone_name ''Left Arm'') = None"
    by code_simp
  show ?thesis
    using h normalize_idempotent_iff [of "''Left Arm''"] by simp
qed

end
